theory Spec2Isabelle
  imports Complex_Main "HOL-Library.Log_Nat"
begin

section \<open>Stored data\<close>

text \<open>
  An answer is the JSON value stored under the key \<open>q_<i>\<close> of a response object: \<open>null\<close>,
  a number, a string or an array of strings. A missing key is \<open>None\<close> of the map.
  Numbers are the integers of the survey's rating domain.
\<close>

datatype answer = ANull | ANum int | AStr string | AArr "string list"

type_synonym response = "string \<rightharpoonup> answer"

datatype question_type = Scale | MultiSelect | FreeText

record question =
  label :: string
  qtype :: question_type
  options :: "string list option"

record settings =
  showResults :: bool
  shareFreetext :: bool

record survey =
  survey_id :: string
  title :: string
  questions :: "question list"
  createdBy :: string
  status :: string
  responseCount :: nat
  createdAt :: string
  settings :: "settings option"

text \<open>
  Digests are symbolic: \<open>Sha256Hex m\<close> is the hex digest of
  \<open>crypto.createHash("sha256").update(m)\<close>, \<open>HmacSha256Hex k m\<close> the one of
  \<open>crypto.createHmac("sha256", k).update(m)\<close>. The constructors are free, so the hash
  functions are taken to be free of collisions.
\<close>

datatype digest = Sha256Hex string | HmacSha256Hex string string

section \<open>JavaScript strings\<close>

text \<open>
  Strings are lists of bytes holding UTF-8 text. White space is what the language calls
  WhiteSpace and LineTerminator, which \<open>\s\<close>, \<open>trim()\<close> and \<open>parseFloat\<close> skip: TAB, LF, VT,
  FF, CR, SP, U+00A0, U+1680, U+2000 to U+200A, U+2028, U+2029, U+202F, U+205F, U+3000 and
  U+FEFF. The dot of a regular expression matches every character but the line terminators
  LF, CR, U+2028 and U+2029.
\<close>

definition dq :: char where
  "dq = CHR 0x22"

definition nl :: char where
  "nl = CHR 0x0A"

definition white_space :: "string list" where
  "white_space =
     [[CHR 0x09], [CHR 0x0A], [CHR 0x0B], [CHR 0x0C], [CHR 0x0D], [CHR 0x20],
      [CHR 0xC2, CHR 0xA0], [CHR 0xE1, CHR 0x9A, CHR 0x80],
      [CHR 0xE2, CHR 0x80, CHR 0x80], [CHR 0xE2, CHR 0x80, CHR 0x81],
      [CHR 0xE2, CHR 0x80, CHR 0x82], [CHR 0xE2, CHR 0x80, CHR 0x83],
      [CHR 0xE2, CHR 0x80, CHR 0x84], [CHR 0xE2, CHR 0x80, CHR 0x85],
      [CHR 0xE2, CHR 0x80, CHR 0x86], [CHR 0xE2, CHR 0x80, CHR 0x87],
      [CHR 0xE2, CHR 0x80, CHR 0x88], [CHR 0xE2, CHR 0x80, CHR 0x89],
      [CHR 0xE2, CHR 0x80, CHR 0x8A], [CHR 0xE2, CHR 0x80, CHR 0xA8],
      [CHR 0xE2, CHR 0x80, CHR 0xA9], [CHR 0xE2, CHR 0x80, CHR 0xAF],
      [CHR 0xE2, CHR 0x81, CHR 0x9F], [CHR 0xE3, CHR 0x80, CHR 0x80],
      [CHR 0xEF, CHR 0xBB, CHR 0xBF]]"

definition line_terminators :: "string list" where
  "line_terminators =
     [[CHR 0x0A], [CHR 0x0D], [CHR 0xE2, CHR 0x80, CHR 0xA8], [CHR 0xE2, CHR 0x80, CHR 0xA9]]"

text \<open>
  The number of bytes of the member of \<open>code\<close> that the string starts with, and 0 when it
  starts with none (the members have one to three bytes).
\<close>

definition code_width :: "string list \<Rightarrow> string \<Rightarrow> nat" where
  "code_width code s =
     (if s = [] then 0
      else if take 1 s \<in> set code then 1
      else if take 2 s \<in> set code then 2
      else if take 3 s \<in> set code then 3
      else 0)"

text \<open>The string without the members of \<open>code\<close> it starts with.\<close>

function skip_code :: "string list \<Rightarrow> string \<Rightarrow> string" where
  "skip_code code s =
     (if code_width code s = 0 then s else skip_code code (drop (code_width code s) s))"
  by pat_completeness auto
termination
  by (relation "measure (\<lambda>(code, s). length s)") (auto simp: code_width_def split: if_splits)

text \<open>The greedy \<open>\s*\<close> at the start of a string: what is left after it.\<close>

definition skip_space :: "string \<Rightarrow> string" where
  "skip_space s = skip_code white_space s"

text \<open>The last white space character of a string that ends with one.\<close>

definition last_space :: "string \<Rightarrow> string" where
  "last_space s = rev (take (code_width (map rev white_space) (rev s)) (rev s))"

text \<open>A line terminator occurs in the string.\<close>

fun has_line_terminator :: "string \<Rightarrow> bool" where
  "has_line_terminator [] = False"
| "has_line_terminator (c # s) =
     (code_width line_terminators (c # s) \<noteq> 0 \<or> has_line_terminator s)"

definition is_digit :: "char \<Rightarrow> bool" where
  "is_digit c = (c \<in> set ''0123456789'')"

text \<open>\<open>s.trim()\<close>\<close>

definition trim :: "string \<Rightarrow> string" where
  "trim s = rev (skip_code (map rev white_space) (rev (skip_space s)))"

text \<open>\<open>s.split(c)\<close> for a separator of one character\<close>

fun split_on :: "char \<Rightarrow> string \<Rightarrow> string list" where
  "split_on c [] = [[]]"
| "split_on c (x # xs) =
     (if x = c then [] # split_on c xs
      else (case split_on c xs of [] \<Rightarrow> [[x]] | w # ws \<Rightarrow> (x # w) # ws))"

text \<open>\<open>xs.join(sep)\<close>\<close>

fun join :: "string \<Rightarrow> string list \<Rightarrow> string" where
  "join sep [] = []"
| "join sep [x] = x"
| "join sep (x # y # ys) = x @ sep @ join sep (y # ys)"

text \<open>The decimal numeral of a non-negative integer, and of an integer.\<close>

fun show_nat :: "nat \<Rightarrow> string" where
  "show_nat n =
     (if n < 10 then [''0123456789'' ! n]
      else show_nat (n div 10) @ [''0123456789'' ! (n mod 10)])"

definition show_int :: "int \<Rightarrow> string" where
  "show_int i = (if i < 0 then ''-'' @ show_nat (nat (- i)) else show_nat (nat i))"

text \<open>The value of a string of decimal digits.\<close>

definition digit_val :: "char \<Rightarrow> nat" where
  "digit_val c = of_char c - 48"

definition digits_val :: "string \<Rightarrow> nat" where
  "digits_val ds = foldl (\<lambda>a c. 10 * a + digit_val c) 0 ds"

text \<open>The key \<open>q_<i>\<close> of the answer to question \<open>i\<close>.\<close>

definition qkey :: "nat \<Rightarrow> string" where
  "qkey i = ''q_'' @ show_nat i"

text \<open>\<open>Boolean(v)\<close> for an answer: \<open>undefined\<close>, \<open>null\<close>, \<open>0\<close> and \<open>""\<close> are falsy.\<close>

fun truthy :: "answer option \<Rightarrow> bool" where
  "truthy None = False"
| "truthy (Some ANull) = False"
| "truthy (Some (ANum n)) = (n \<noteq> 0)"
| "truthy (Some (AStr s)) = (s \<noteq> [])"
| "truthy (Some (AArr xs)) = True"

text \<open>\<open>String(v)\<close> for an answer, as a template literal or \<open>join\<close> converts it.\<close>

fun answer_text :: "answer \<Rightarrow> string" where
  "answer_text ANull = ''null''"
| "answer_text (ANum n) = show_int n"
| "answer_text (AStr s) = s"
| "answer_text (AArr xs) = join '','' xs"

section \<open>JavaScript numbers\<close>

text \<open>What a call can throw: the rejection of a blob-store call, and RangeError.\<close>

datatype js_error = StorageFault | RangeError

text \<open>
  A Number is NaN, an infinity or a finite double, held as the rational it denotes (the
  sign of zero is not kept). \<open>fl\<close> rounds a rational to the nearest double, ties to
  even, with the exponent range of binary64; every arithmetic operation rounds its exact
  result with it.
\<close>

datatype jsnum = NaN | PosInf | NegInf | Fin rat

definition pow2 :: "int \<Rightarrow> rat" where
  "pow2 e = (if 0 \<le> e then 2 ^ nat e else 1 / 2 ^ nat (- e))"

definition floor_log2 :: "rat \<Rightarrow> int" where
  "floor_log2 x =
     (let (a, b) = quotient_of x; d = bitlen a - bitlen b
      in if pow2 d \<le> x then d else d - 1)"

definition round_half_even :: "rat \<Rightarrow> int" where
  "round_half_even m =
     (let f = \<lfloor>m\<rfloor>; d = m - of_int f
      in if d < 1 / 2 then f else if 1 / 2 < d then f + 1 else if even f then f else f + 1)"

definition fl :: "rat \<Rightarrow> jsnum" where
  "fl x =
     (if x = 0 then Fin 0
      else
        let a = \<bar>x\<bar>;
            e = max (floor_log2 a) (- 1022);
            u = pow2 (e - 52);
            r = of_int (round_half_even (a / u)) * u
        in if pow2 1024 \<le> r then (if 0 < x then PosInf else NegInf)
           else Fin (if 0 < x then r else - r))"

text \<open>\<open>a + b\<close>\<close>

fun js_add :: "jsnum \<Rightarrow> jsnum \<Rightarrow> jsnum" where
  "js_add (Fin a) (Fin b) = fl (a + b)"
| "js_add NaN y = NaN"
| "js_add x NaN = NaN"
| "js_add PosInf NegInf = NaN"
| "js_add NegInf PosInf = NaN"
| "js_add PosInf y = PosInf"
| "js_add NegInf y = NegInf"
| "js_add (Fin a) y = y"

text \<open>\<open>x * c\<close> and \<open>x / c\<close> for a positive integer constant \<open>c\<close>\<close>

fun js_times :: "jsnum \<Rightarrow> nat \<Rightarrow> jsnum" where
  "js_times (Fin a) c = fl (a * of_nat c)"
| "js_times x c = x"

text \<open>\<open>x / n\<close> for an array length or a positive constant \<open>n\<close>; \<open>0 / 0\<close> is NaN.\<close>

fun js_div_by :: "jsnum \<Rightarrow> nat \<Rightarrow> jsnum" where
  "js_div_by (Fin a) n =
     (if n = 0 then (if a = 0 then NaN else if 0 < a then PosInf else NegInf)
      else fl (a / of_nat n))"
| "js_div_by x n = x"

text \<open>\<open>c - x\<close> for an integer constant \<open>c\<close>\<close>

fun js_minus :: "nat \<Rightarrow> jsnum \<Rightarrow> jsnum" where
  "js_minus c (Fin a) = fl (of_nat c - a)"
| "js_minus c NaN = NaN"
| "js_minus c PosInf = NegInf"
| "js_minus c NegInf = PosInf"

text \<open>\<open>Math.round(x)\<close>: the integer nearest to \<open>x\<close>, halves upwards\<close>

fun math_round :: "jsnum \<Rightarrow> jsnum" where
  "math_round (Fin a) = Fin (of_int \<lfloor>a + 1 / 2\<rfloor>)"
| "math_round x = x"

text \<open>\<open>Boolean(x)\<close> for a number\<close>

fun truthy_num :: "jsnum \<Rightarrow> bool" where
  "truthy_num NaN = False"
| "truthy_num (Fin a) = (a \<noteq> 0)"
| "truthy_num x = True"

text \<open>
  \<open>s.repeat(count)\<close>: NaN counts as zero and a fraction is cut off towards zero; a count
  of \<open>-1\<close> or less, or an infinite one, raises RangeError.
\<close>

fun js_repeat :: "string \<Rightarrow> jsnum \<Rightarrow> js_error + string" where
  "js_repeat s NaN = Inr []"
| "js_repeat s PosInf = Inl RangeError"
| "js_repeat s NegInf = Inl RangeError"
| "js_repeat s (Fin a) =
     (if a \<le> - 1 then Inl RangeError else Inr (concat (replicate (nat \<lfloor>a\<rfloor>) s)))"

text \<open>
  \<open>String(x)\<close> for a number that \<open>Math.round\<close> returned, and \<open>String(m / 10)\<close> for such
  an \<open>m\<close>: the decimal numeral with at most one decimal place (magnitudes below
  \<open>10^21\<close>, where JavaScript writes all digits).
\<close>

fun integer_text :: "jsnum \<Rightarrow> string" where
  "integer_text NaN = ''NaN''"
| "integer_text PosInf = ''Infinity''"
| "integer_text NegInf = ''-Infinity''"
| "integer_text (Fin a) = show_int \<lfloor>a\<rfloor>"

fun tenths_text :: "jsnum \<Rightarrow> string" where
  "tenths_text NaN = ''NaN''"
| "tenths_text PosInf = ''Infinity''"
| "tenths_text NegInf = ''-Infinity''"
| "tenths_text (Fin a) =
     (let m = \<lfloor>a\<rfloor>; w = nat \<bar>m\<bar> div 10; d = nat \<bar>m\<bar> mod 10
      in (if m < 0 then ''-'' else '''') @ show_nat w
         @ (if d = 0 then '''' else ''.'' @ show_nat d))"

text \<open>
  \<open>parseFloat(s)\<close>: leading white space is skipped and the longest prefix that is a
  decimal literal (sign, digits, fraction, exponent; or \<open>Infinity\<close>) is converted; NaN if
  there is none.
\<close>

definition exponent_part :: "string \<Rightarrow> int" where
  "exponent_part r =
     (case r of
        [] \<Rightarrow> 0
      | c # r1 \<Rightarrow>
          if c = CHR ''e'' \<or> c = CHR ''E'' then
            (case r1 of
               [] \<Rightarrow> 0
             | s # r2 \<Rightarrow>
                 if s = CHR ''-'' then
                   (if takeWhile is_digit r2 = [] then 0
                    else - int (digits_val (takeWhile is_digit r2)))
                 else if s = CHR ''+'' then int (digits_val (takeWhile is_digit r2))
                 else int (digits_val (takeWhile is_digit r1)))
          else 0)"

definition unsigned_literal :: "string \<Rightarrow> jsnum" where
  "unsigned_literal u =
     (if take 8 u = ''Infinity'' then PosInf
      else
        let ip = takeWhile is_digit u;
            r1 = dropWhile is_digit u;
            dot = (r1 \<noteq> [] \<and> hd r1 = CHR ''.'');
            fp = (if dot then takeWhile is_digit (tl r1) else []);
            r2 = (if dot then dropWhile is_digit (tl r1) else r1)
        in if ip = [] \<and> fp = [] then NaN
           else
             let m = of_nat (digits_val (ip @ fp)) / 10 ^ length fp;
                 ex = exponent_part r2
             in fl (if 0 \<le> ex then m * 10 ^ nat ex else m / 10 ^ nat (- ex)))"

fun js_negate :: "jsnum \<Rightarrow> jsnum" where
  "js_negate NaN = NaN"
| "js_negate PosInf = NegInf"
| "js_negate NegInf = PosInf"
| "js_negate (Fin a) = Fin (- a)"

definition parseFloat_string :: "string \<Rightarrow> jsnum" where
  "parseFloat_string s =
     (case skip_space s of
        [] \<Rightarrow> NaN
      | c # r \<Rightarrow>
          if c = CHR ''-'' then js_negate (unsigned_literal r)
          else if c = CHR ''+'' then unsigned_literal r
          else unsigned_literal (c # r))"

text \<open>\<open>parseFloat(v)\<close> for an answer: the argument is converted to a string first.\<close>

fun parseFloat :: "answer option \<Rightarrow> jsnum" where
  "parseFloat None = NaN"
| "parseFloat (Some v) = parseFloat_string (answer_text v)"

section \<open>parseQuestions\<close>

text \<open>\<open>s.split("\n").map((l) => l.trim()).filter(Boolean)\<close>\<close>

definition nonblank_lines :: "string \<Rightarrow> string list" where
  "nonblank_lines s = filter (\<lambda>l. l \<noteq> []) (map trim (split_on nl s))"

text \<open>Case folding of the ASCII letters, as the \<open>i\<close> flag compares them.\<close>

definition lower :: "char \<Rightarrow> char" where
  "lower c =
     (case map_of (zip ''ABCDEFGHIJKLMNOPQRSTUVWXYZ'' ''abcdefghijklmnopqrstuvwxyz'') c of
        None \<Rightarrow> c
      | Some l \<Rightarrow> l)"

text \<open>The subject starts with the (lower-case) marker, up to the case of letters.\<close>

fun starts_with_ci :: "string \<Rightarrow> string \<Rightarrow> bool" where
  "starts_with_ci [] s = True"
| "starts_with_ci (m # ms) [] = False"
| "starts_with_ci (m # ms) (c # cs) = (if lower c = m then starts_with_ci ms cs else False)"

text \<open>\<open>/marker/i.test(s)\<close>: the marker occurs somewhere in \<open>s\<close>.\<close>

fun test_ci :: "string \<Rightarrow> string \<Rightarrow> bool" where
  "test_ci m [] = starts_with_ci m []"
| "test_ci m (c # cs) = (starts_with_ci m (c # cs) \<or> test_ci m cs)"

text \<open>
  \<open>s.replace(/\s*marker/i, "")\<close>: the leftmost match, that is the first occurrence of
  the marker together with the white space before it, is removed.
\<close>

fun strip_marker :: "string \<Rightarrow> string \<Rightarrow> string" where
  "strip_marker m [] = []"
| "strip_marker m (c # cs) =
     (if starts_with_ci m (skip_space (c # cs))
      then drop (length m) (skip_space (c # cs))
      else c # strip_marker m cs)"

text \<open>
  \<open>line.match(/^Q(\d+)\s*:\s*(.+)$/i)\<close>, giving \<open>parseInt\<close> of the first group and the
  second group. The dot matches no line terminator. When only white space follows the
  colon, \<open>\s*\<close> gives back its last character to \<open>(.+)\<close>.
\<close>

definition match_option_line :: "string \<Rightarrow> (nat \<times> string) option" where
  "match_option_line line =
     (case line of
        [] \<Rightarrow> None
      | c # r \<Rightarrow>
          if lower c \<noteq> CHR ''q'' \<or> takeWhile is_digit r = [] then None
          else
            (case skip_space (dropWhile is_digit r) of
               [] \<Rightarrow> None
             | c2 # r2 \<Rightarrow>
                 if c2 \<noteq> CHR '':'' then None
                 else
                   let body = (if skip_space r2 = [] then last_space r2 else skip_space r2)
                   in if body = [] \<or> has_line_terminator body then None
                      else Some (digits_val (takeWhile is_digit r), body)))"

text \<open>
  The object \<open>optionsMap\<close>: a later line for the same number overwrites an earlier one.
\<close>

definition parse_options :: "string \<Rightarrow> (nat \<rightharpoonup> string list)" where
  "parse_options rawOptions =
     (if rawOptions = [] then Map.empty
      else foldl (\<lambda>optionsMap line.
                    case match_option_line line of
                      None \<Rightarrow> optionsMap
                    | Some (qNum, body) \<Rightarrow> optionsMap(qNum \<mapsto> map trim (split_on CHR '','' body)))
             Map.empty (nonblank_lines rawOptions))"

definition default_options :: "string list" where
  "default_options = [''Option A'', ''Option B'', ''Option C'']"

definition parse_line :: "(nat \<rightharpoonup> string list) \<Rightarrow> nat \<times> string \<Rightarrow> question" where
  "parse_line optionsMap il =
     (let (i, line) = il; qNum = i + 1
      in if test_ci ''(multi-select)'' line then
           \<lparr>label = trim (strip_marker ''(multi-select)'' line), qtype = MultiSelect,
            options = Some (case optionsMap qNum of None \<Rightarrow> default_options | Some opts \<Rightarrow> opts)\<rparr>
         else if test_ci ''(free-text)'' line then
           \<lparr>label = trim (strip_marker ''(free-text)'' line), qtype = FreeText, options = None\<rparr>
         else \<lparr>label = trim line, qtype = Scale, options = None\<rparr>)"

definition parseQuestions :: "string \<Rightarrow> string \<Rightarrow> question list" where
  "parseQuestions rawQuestions rawOptions =
     (let lines = nonblank_lines rawQuestions;
          optionsMap = parse_options rawOptions
      in map (parse_line optionsMap) (enumerate 0 lines))"

text \<open>
  The specification's words for an options line, \<open>Q<N>: opt1, opt2, ...\<close>: the letter Q in
  either case, a decimal numeral of \<open>N\<close>, a colon with optional white space on both
  sides, and the option text, which is not empty, starts with no white space and has no
  line terminator. A string is white space only when it is a sequence of white space
  characters; it starts (ends) with white space when a white space character is its first
  (last) character.
\<close>

definition all_space :: "string \<Rightarrow> bool" where
  "all_space s = (\<exists>ws. set ws \<subseteq> set white_space \<and> s = concat ws)"

definition starts_with_space :: "string \<Rightarrow> bool" where
  "starts_with_space s = (\<exists>w \<in> set white_space. \<exists>r. s = w @ r)"

definition ends_with_space :: "string \<Rightarrow> bool" where
  "ends_with_space s = (\<exists>w \<in> set white_space. \<exists>p. s = p @ w)"

definition option_line_form :: "nat \<Rightarrow> string \<Rightarrow> string \<Rightarrow> bool" where
  "option_line_form n body line =
     (\<exists>q ds ws1 ws2.
        line = q # ds @ ws1 @ '':'' @ ws2 @ body
        \<and> (q = CHR ''Q'' \<or> q = CHR ''q'')
        \<and> ds \<noteq> [] \<and> list_all is_digit ds \<and> digits_val ds = n
        \<and> all_space ws1 \<and> all_space ws2
        \<and> body \<noteq> [] \<and> \<not> starts_with_space body \<and> \<not> has_line_terminator body)"

section \<open>Results formatting and CSV export\<close>

text \<open>A Block Kit block of a results message: a section with mrkdwn text, or a divider.\<close>

datatype block = Section string | Divider

text \<open>The UTF-8 encodings of the full block, the light shade, the star and the middle dot.\<close>

definition full_block :: string where
  "full_block = [CHR 0xE2, CHR 0x96, CHR 0x88]"

definition light_shade :: string where
  "light_shade = [CHR 0xE2, CHR 0x96, CHR 0x91]"

definition star :: string where
  "star = [CHR 0xE2, CHR 0x98, CHR 0x85]"

definition middle_dot :: string where
  "middle_dot = [CHR 0xC2, CHR 0xB7]"

text \<open>A callback mapped over an array throws at the first element on which it throws.\<close>

fun collect :: "(js_error + 'a) list \<Rightarrow> js_error + 'a list" where
  "collect [] = Inr []"
| "collect (Inl e # rs) = Inl e"
| "collect (Inr x # rs) = (case collect rs of Inl e \<Rightarrow> Inl e | Inr xs \<Rightarrow> Inr (x # xs))"

subsection \<open>Scale questions\<close>

definition scale_values :: "response list \<Rightarrow> string \<Rightarrow> jsnum list" where
  "scale_values responses key = filter truthy_num (map (\<lambda>r. parseFloat (r key)) responses)"

definition scale_avg :: "jsnum list \<Rightarrow> jsnum" where
  "scale_avg values = js_div_by (foldl js_add (Fin 0) values) (length values)"

definition scale_dist :: "jsnum list \<Rightarrow> nat list" where
  "scale_dist values = map (\<lambda>n. length (filter (\<lambda>v. v = Fin (of_nat n)) values)) [1, 2, 3, 4, 5]"

definition scale_section :: "question \<Rightarrow> response list \<Rightarrow> string \<Rightarrow> js_error + string" where
  "scale_section q responses key =
     (let values = scale_values responses key;
          avg = scale_avg values;
          tenths = math_round (js_times avg 10);
          filledBars = math_round avg
      in case js_repeat full_block filledBars of
           Inl e \<Rightarrow> Inl e
         | Inr filled \<Rightarrow>
             (case js_repeat light_shade (js_minus 5 filledBars) of
                Inl e \<Rightarrow> Inl e
              | Inr rest \<Rightarrow>
                  let bar = filled @ rest;
                      dist = scale_dist values
                  in Inr (''*'' @ label q @ ''*'' @ [nl] @ bar @ '' *'' @ tenths_text tenths
                          @ ''/5* ('' @ show_nat (length values) @ '' responses)'' @ [nl]
                          @ join ('' '' @ middle_dot @ '' '')
                              (map (\<lambda>(idx, count). show_nat (idx + 1) @ star @ '': '' @ show_nat count)
                                 (enumerate 0 dist)))))"


subsection \<open>Multi-select questions\<close>

text \<open>\<open>r[key] || []\<close> as \<open>flatMap\<close> flattens it: an array gives its elements, any other
  truthy value itself (as the property name it becomes).\<close>

fun selections_of :: "answer option \<Rightarrow> string list" where
  "selections_of (Some (AArr xs)) = xs"
| "selections_of v = (if truthy v then [answer_text (the v)] else [])"

text \<open>
  The tally object \<open>counts\<close> as the list of its own properties in the order of their
  creation. A value is a number or, when the option is named like a property that a plain
  object inherits from \<open>Object.prototype\<close>, a text: \<open>counts[opt]\<close> then reads the inherited
  function, \<open>(counts[opt] || 0) + 1\<close> is its source text followed by \<open>1\<close>, and every later
  occurrence appends another \<open>1\<close>. Assigning to \<open>__proto__\<close> calls the inherited setter,
  which ignores a text, so that option never becomes a property.
\<close>

datatype tally_value = Count nat | Text string

definition inherited :: "string \<Rightarrow> string option" where
  "inherited name =
     (if name = ''__proto__'' then Some ''[object Object]''
      else if name = ''constructor'' then Some ''function Object() { [native code] }''
      else if name \<in> set [''hasOwnProperty'', ''isPrototypeOf'', ''propertyIsEnumerable'',
                             ''toLocaleString'', ''toString'', ''valueOf'', ''__defineGetter__'',
                             ''__defineSetter__'', ''__lookupGetter__'', ''__lookupSetter__'']
      then Some (''function '' @ name @ ''() { [native code] }'')
      else None)"

fun plus_one :: "tally_value \<Rightarrow> tally_value" where
  "plus_one (Count n) = Count (n + 1)"
| "plus_one (Text t) = Text (t @ ''1'')"

fun bump :: "(string \<times> tally_value) list \<Rightarrow> string \<Rightarrow> (string \<times> tally_value) list" where
  "bump [] opt =
     (case inherited opt of
        None \<Rightarrow> [(opt, Count 1)]
      | Some t \<Rightarrow> if opt = ''__proto__'' then [] else [(opt, Text (t @ ''1''))])"
| "bump ((k, v) # kvs) opt = (if k = opt then (k, plus_one v) # kvs else (k, v) # bump kvs opt)"

definition tally :: "string list \<Rightarrow> (string \<times> tally_value) list" where
  "tally allSelections = foldl bump [] allSelections"

text \<open>
  \<open>Object.entries\<close> lists the properties whose names are array indices (canonical
  numerals below \<open>2^32 - 1\<close>) first, in ascending numeric order, then the other
  properties in the order of their creation.
\<close>

definition is_array_index :: "string \<Rightarrow> bool" where
  "is_array_index k =
     (k \<noteq> [] \<and> list_all is_digit k \<and> (k = ''0'' \<or> hd k \<noteq> CHR ''0'')
      \<and> int (digits_val k) < 4294967295)"

definition object_entries :: "(string \<times> 'v) list \<Rightarrow> (string \<times> 'v) list" where
  "object_entries props =
     sort_key (\<lambda>(k, c). digits_val k) (filter (\<lambda>(k, c). is_array_index k) props)
     @ filter (\<lambda>(k, c). \<not> is_array_index k) props"

text \<open>
  \<open>entries.sort((a, b) => b[1] - a[1])\<close>: a stable sort with the comparator \<open>b[1] - a[1]\<close>,
  where a difference with a text is NaN and counts as 0. Among numbers this puts larger
  counts first and keeps the order of equal counts. With a text among different counts the
  comparator is not consistent and the language leaves the order to the implementation; the
  model then gives the order of insertion sort.
\<close>

definition compare_entries :: "string \<times> tally_value \<Rightarrow> string \<times> tally_value \<Rightarrow> int" where
  "compare_entries a b =
     (case (snd a, snd b) of
        (Count m, Count n) \<Rightarrow> int n - int m
      | _ \<Rightarrow> 0)"

fun insert_entry ::
  "string \<times> tally_value \<Rightarrow> (string \<times> tally_value) list \<Rightarrow> (string \<times> tally_value) list" where
  "insert_entry a [] = [a]"
| "insert_entry a (b # bs) = (if compare_entries a b \<le> 0 then a # b # bs else b # insert_entry a bs)"

definition sort_by_count :: "(string \<times> tally_value) list \<Rightarrow> (string \<times> tally_value) list" where
  "sort_by_count entries = foldr insert_entry entries []"

text \<open>The count as a number (a text is NaN) and as it is printed.\<close>

fun count_number :: "tally_value \<Rightarrow> jsnum" where
  "count_number (Count n) = Fin (of_nat n)"
| "count_number (Text t) = NaN"

fun count_text :: "tally_value \<Rightarrow> string" where
  "count_text (Count n) = show_nat n"
| "count_text (Text t) = t"

definition percent :: "tally_value \<Rightarrow> nat \<Rightarrow> jsnum" where
  "percent count tot = math_round (js_times (js_div_by (count_number count) tot) 100)"

definition option_row :: "nat \<Rightarrow> string \<times> tally_value \<Rightarrow> js_error + string" where
  "option_row tot entry =
     (let (opt, count) = entry;
          pct = percent count tot;
          barLen = math_round (js_div_by pct 10)
      in case js_repeat full_block barLen of
           Inl e \<Rightarrow> Inl e
         | Inr filled \<Rightarrow>
             (case js_repeat light_shade (js_minus 10 barLen) of
                Inl e \<Rightarrow> Inl e
              | Inr rest \<Rightarrow>
                  Inr (opt @ '': '' @ filled @ rest @ '' '' @ integer_text pct @ ''% (''
                       @ count_text count @ '')'')))"

definition allSelections :: "response list \<Rightarrow> string \<Rightarrow> string list" where
  "allSelections responses key = concat (map (\<lambda>r. selections_of (r key)) responses)"

definition multi_sorted :: "response list \<Rightarrow> string \<Rightarrow> (string \<times> tally_value) list" where
  "multi_sorted responses key =
     (let counts = tally (allSelections responses key)
      in sort_by_count (object_entries counts))"

definition multi_section :: "question \<Rightarrow> response list \<Rightarrow> string \<Rightarrow> js_error + string" where
  "multi_section q responses key =
     (let sorted = multi_sorted responses key;
          tot = length responses
      in case collect (map (option_row tot) sorted) of
           Inl e \<Rightarrow> Inl e
         | Inr lines \<Rightarrow> Inr (''*'' @ label q @ ''*'' @ [nl] @ join [nl] lines))"

text \<open>The distinct options of a list of selections, in the order of their first occurrence.\<close>

definition first_seen :: "string list \<Rightarrow> string list" where
  "first_seen sels = rev (remdups (rev sels))"

subsection \<open>Free-text questions\<close>

definition free_texts :: "response list \<Rightarrow> string \<Rightarrow> answer list" where
  "free_texts responses key = map the (filter truthy (map (\<lambda>r. r key) responses))"

definition share_freetext_setting :: "survey \<Rightarrow> bool" where
  "share_freetext_setting survey =
     (case settings survey of None \<Rightarrow> False | Some st \<Rightarrow> shareFreetext st)"

definition free_text_section ::
    "survey \<Rightarrow> question \<Rightarrow> response list \<Rightarrow> bool \<Rightarrow> bool \<Rightarrow> string \<Rightarrow> string" where
  "free_text_section survey q responses isAdmin isShare key =
     (let texts = free_texts responses key;
          showFreeText = (isAdmin \<or> (\<not> isShare \<and> share_freetext_setting survey))
      in if showFreeText \<and> 0 < length texts then
           (let textList = join [nl] (map (\<lambda>t. ''> _'' @ answer_text t @ ''_'') texts)
            in ''*'' @ label q @ ''* ('' @ show_nat (length texts) @ '' responses)'' @ [nl]
               @ textList)
         else if isShare then
           ''*'' @ label q @ ''*'' @ [nl] @ ''_'' @ show_nat (length texts)
           @ '' free-text responses (visible to survey creator only)_''
         else
           ''*'' @ label q @ ''*'' @ [nl] @ ''_'' @ show_nat (length texts) @ '' responses ''
           @ middle_dot @ '' Free-text answers are only visible to the survey creator_'')"

subsection \<open>buildResultsBlocks\<close>

definition question_blocks ::
    "survey \<Rightarrow> response list \<Rightarrow> bool \<Rightarrow> bool \<Rightarrow> nat \<times> question \<Rightarrow> js_error + block list" where
  "question_blocks survey responses isAdmin isShare iq =
     (let (i, q) = iq; key = qkey i
      in case qtype q of
           Scale \<Rightarrow>
             (case scale_section q responses key of
                Inl e \<Rightarrow> Inl e
              | Inr text \<Rightarrow> Inr [Section text, Divider])
         | MultiSelect \<Rightarrow>
             (case multi_section q responses key of
                Inl e \<Rightarrow> Inl e
              | Inr text \<Rightarrow> Inr [Section text, Divider])
         | FreeText \<Rightarrow>
             Inr [Section (free_text_section survey q responses isAdmin isShare key), Divider])"

definition results_header :: "survey \<Rightarrow> response list \<Rightarrow> block" where
  "results_header survey responses =
     Section ('':bar_chart: *Results: '' @ title survey @ ''*'' @ [nl]
              @ show_nat (length responses) @ '' response''
              @ (if length responses = 1 then '''' else ''s'')
              @ '' '' @ middle_dot @ '' Status: '' @ status survey)"

definition buildResultsBlocks ::
    "survey \<Rightarrow> response list \<Rightarrow> bool \<Rightarrow> bool \<Rightarrow> js_error + block list" where
  "buildResultsBlocks survey responses isAdmin isShare =
     (if length responses = 0 then
        Inr [results_header survey responses, Divider, Section ''_No responses yet._'']
      else
        (case collect (map (question_blocks survey responses isAdmin isShare)
                         (enumerate 0 (questions survey))) of
           Inl e \<Rightarrow> Inl e
         | Inr bss \<Rightarrow> Inr ([results_header survey responses, Divider] @ concat bss)))"

subsection \<open>buildCsvExport\<close>

definition double_quotes :: "string \<Rightarrow> string" where
  "double_quotes s = concat (map (\<lambda>c. if c = dq then [dq, dq] else [c]) s)"

text \<open>One field, as the callback returns it and \<open>join\<close> then converts it to a string.\<close>

fun csv_field :: "answer option \<Rightarrow> string" where
  "csv_field (Some (AArr xs)) = [dq] @ join '', '' xs @ [dq]"
| "csv_field (Some (AStr s)) =
     (if CHR '','' \<in> set s \<or> dq \<in> set s then [dq] @ double_quotes s @ [dq] else s)"
| "csv_field (Some (ANum n)) = (if n = 0 then [] else show_int n)"
| "csv_field (Some ANull) = []"
| "csv_field None = []"

definition buildCsvExport :: "survey \<Rightarrow> response list \<Rightarrow> string" where
  "buildCsvExport survey responses =
     (let headers = map label (questions survey);
          rows = map (\<lambda>r. map (\<lambda>(i, q). csv_field (r (qkey i))) (enumerate 0 (questions survey)))
                   responses
      in join [nl] (join '','' headers # map (join '','') rows))"

section \<open>The blob stores\<close>

datatype store_name = SurveysStore | ResponsesStore | TrackingStore

text \<open>
  The three named stores of the key-value backend. A call to the backend is rejected with
  \<open>StorageFault\<close> when the backend is not reachable. The journal lists the \<open>setJSON\<close>
  calls the backend has accepted, oldest first. Of the survey store, the surveys under
  their ids are modelled; the keys \<open>user_<userId>\<close> of the same store, which hold the
  lists of a user's survey ids, are not.
\<close>

record backend =
  reachable :: bool
  surveys :: "string \<rightharpoonup> survey"
  responses :: "string \<rightharpoonup> response list"
  tracking :: "string \<rightharpoonup> digest list"
  journal :: "(store_name \<times> string) list"

definition store_get :: "backend \<Rightarrow> (backend \<Rightarrow> string \<rightharpoonup> 'v) \<Rightarrow> string \<Rightarrow> js_error + 'v option" where
  "store_get b store k = (if reachable b then Inr (store b k) else Inl StorageFault)"

definition setJSON_surveys :: "backend \<Rightarrow> string \<Rightarrow> survey \<Rightarrow> js_error + backend" where
  "setJSON_surveys b k v =
     (if reachable b
      then Inr (b\<lparr>surveys := (surveys b)(k \<mapsto> v), journal := journal b @ [(SurveysStore, k)]\<rparr>)
      else Inl StorageFault)"

definition setJSON_responses :: "backend \<Rightarrow> string \<Rightarrow> response list \<Rightarrow> js_error + backend" where
  "setJSON_responses b k v =
     (if reachable b
      then Inr (b\<lparr>responses := (responses b)(k \<mapsto> v), journal := journal b @ [(ResponsesStore, k)]\<rparr>)
      else Inl StorageFault)"

definition setJSON_tracking :: "backend \<Rightarrow> string \<Rightarrow> digest list \<Rightarrow> js_error + backend" where
  "setJSON_tracking b k v =
     (if reachable b
      then Inr (b\<lparr>tracking := (tracking b)(k \<mapsto> v), journal := journal b @ [(TrackingStore, k)]\<rparr>)
      else Inl StorageFault)"

text \<open>\<open>x || []\<close> on the result of a \<open>get\<close>: a missing blob reads as the empty array.\<close>

definition or_empty :: "'a list option \<Rightarrow> 'a list" where
  "or_empty got = (case got of None \<Rightarrow> [] | Some xs \<Rightarrow> xs)"

section \<open>store.js\<close>

definition getSurvey :: "backend \<Rightarrow> string \<Rightarrow> js_error + survey option" where
  "getSurvey b ident = store_get b surveys ident"

definition addResponse :: "backend \<Rightarrow> string \<Rightarrow> response \<Rightarrow> js_error + (backend \<times> nat)" where
  "addResponse b surveyId answers =
     (case store_get b responses surveyId of
        Inl e \<Rightarrow> Inl e
      | Inr got \<Rightarrow>
          let existing = or_empty got @ [answers] in
          (case setJSON_responses b surveyId existing of
             Inl e \<Rightarrow> Inl e
           | Inr b1 \<Rightarrow>
               (case store_get b1 surveys surveyId of
                  Inl e \<Rightarrow> Inl e
                | Inr None \<Rightarrow> Inr (b1, length existing)
                | Inr (Some survey) \<Rightarrow>
                    (case setJSON_surveys b1 surveyId
                            (survey\<lparr>responseCount := length existing\<rparr>) of
                       Inl e \<Rightarrow> Inl e
                     | Inr b2 \<Rightarrow> Inr (b2, length existing)))))"

definition getResponses :: "backend \<Rightarrow> string \<Rightarrow> js_error + response list" where
  "getResponses b surveyId =
     (case store_get b responses surveyId of
        Inl e \<Rightarrow> Inl e
      | Inr got \<Rightarrow> Inr (or_empty got))"

definition dedup_digest :: "string \<Rightarrow> string \<Rightarrow> digest" where
  "dedup_digest surveyId userId = Sha256Hex (surveyId @ '':'' @ userId)"

definition hasUserResponded :: "backend \<Rightarrow> string \<Rightarrow> string \<Rightarrow> js_error + bool" where
  "hasUserResponded b surveyId userId =
     (let hash = dedup_digest surveyId userId in
      case store_get b tracking surveyId of
        Inl e \<Rightarrow> Inl e
      | Inr got \<Rightarrow> Inr (hash \<in> set (or_empty got)))"

definition markUserResponded :: "backend \<Rightarrow> string \<Rightarrow> string \<Rightarrow> js_error + backend" where
  "markUserResponded b surveyId userId =
     (let hash = dedup_digest surveyId userId in
      case store_get b tracking surveyId of
        Inl e \<Rightarrow> Inl e
      | Inr got \<Rightarrow>
          if hash \<notin> set (or_empty got)
          then setJSON_tracking b surveyId (or_empty got @ [hash])
          else Inr b)"

subsection \<open>Sequences of calls\<close>

text \<open>
  One invocation after the other on the same backend, stopping at the first rejected
  call: \<open>addResponse\<close> for a list of answer objects (collecting the returned counts),
  and \<open>markUserResponded\<close> for a list of (survey id, user id) pairs.
\<close>

fun addResponse_seq :: "backend \<Rightarrow> string \<Rightarrow> response list \<Rightarrow> js_error + (backend \<times> nat list)" where
  "addResponse_seq b surveyId [] = Inr (b, [])"
| "addResponse_seq b surveyId (a # as) =
     (case addResponse b surveyId a of
        Inl e \<Rightarrow> Inl e
      | Inr (b1, n) \<Rightarrow>
          (case addResponse_seq b1 surveyId as of
             Inl e \<Rightarrow> Inl e
           | Inr (b2, ns) \<Rightarrow> Inr (b2, n # ns)))"

fun markUserResponded_seq :: "backend \<Rightarrow> (string \<times> string) list \<Rightarrow> js_error + backend" where
  "markUserResponded_seq b [] = Inr b"
| "markUserResponded_seq b ((s, u) # ps) =
     (case markUserResponded b s u of
        Inl e \<Rightarrow> Inl e
      | Inr b1 \<Rightarrow> markUserResponded_seq b1 ps)"

section \<open>The read commands of the slash-command handler\<close>

text \<open>
  What a command handler produces: its HTTP response (the JSON reply of \<open>slackResponse\<close>,
  or the empty 200 response) and the calls it made to the Slack client. The Slack calls
  themselves are taken to succeed.
\<close>

datatype http_response = SlackResponse string | EmptyOk

datatype slack_call =
    PostEphemeral string string "block list" string
  | PostMessage string "block list" string
  | FilesUploadV2 string string string string string

definition handleResults ::
    "backend \<Rightarrow> string \<Rightarrow> string \<Rightarrow> string option \<Rightarrow> js_error + http_response \<times> slack_call list" where
  "handleResults b channelId userId surveyId =
     (case surveyId of
        None \<Rightarrow> Inr (SlackResponse (''Usage: `/pulse results <survey-id>`'' @ [nl]
                 @ ''You can find the survey ID at the bottom of any survey post.''), [])
      | Some sid \<Rightarrow>
          (case getSurvey b sid of
             Inl e \<Rightarrow> Inl e
           | Inr None \<Rightarrow> Inr (SlackResponse ('':x: Survey `'' @ sid @ ''` not found.''), [])
           | Inr (Some survey) \<Rightarrow>
               (case getResponses b sid of
                  Inl e \<Rightarrow> Inl e
                | Inr resps \<Rightarrow>
                    let isAdmin = (userId = createdBy survey) in
                    (case buildResultsBlocks survey resps isAdmin False of
                       Inl e \<Rightarrow> Inl e
                     | Inr blocks \<Rightarrow>
                         Inr (EmptyOk,
                              [PostEphemeral channelId userId blocks
                                 (''Results for '' @ title survey)])))))"

definition handleShare ::
    "backend \<Rightarrow> string \<Rightarrow> string option \<Rightarrow> js_error + http_response \<times> slack_call list" where
  "handleShare b channelId surveyId =
     (case surveyId of
        None \<Rightarrow> Inr (SlackResponse ''Usage: `/pulse share <survey-id>`'', [])
      | Some sid \<Rightarrow>
          (case getSurvey b sid of
             Inl e \<Rightarrow> Inl e
           | Inr None \<Rightarrow> Inr (SlackResponse ('':x: Survey `'' @ sid @ ''` not found.''), [])
           | Inr (Some survey) \<Rightarrow>
               (case getResponses b sid of
                  Inl e \<Rightarrow> Inl e
                | Inr resps \<Rightarrow>
                    (case buildResultsBlocks survey resps False True of
                       Inl e \<Rightarrow> Inl e
                     | Inr blocks \<Rightarrow>
                         Inr (EmptyOk,
                              [PostMessage channelId blocks
                                 (''Survey results: '' @ title survey)])))))"

definition handleExport ::
    "backend \<Rightarrow> string \<Rightarrow> string \<Rightarrow> string option \<Rightarrow> js_error + http_response \<times> slack_call list" where
  "handleExport b channelId userId surveyId =
     (case surveyId of
        None \<Rightarrow> Inr (SlackResponse ''Usage: `/pulse export <survey-id>`'', [])
      | Some sid \<Rightarrow>
          (case getSurvey b sid of
             Inl e \<Rightarrow> Inl e
           | Inr None \<Rightarrow> Inr (SlackResponse ('':x: Survey `'' @ sid @ ''` not found.''), [])
           | Inr (Some survey) \<Rightarrow>
               if userId \<noteq> createdBy survey then
                 Inr (SlackResponse '':lock: Only the survey creator can export results.'', [])
               else
                 (case getResponses b sid of
                    Inl e \<Rightarrow> Inl e
                  | Inr resps \<Rightarrow>
                      let csv = buildCsvExport survey resps in
                      Inr (EmptyOk,
                           [FilesUploadV2 channelId csv
                              (''pulse-survey-'' @ sid @ ''-results.csv'')
                              (title survey @ '' - Export'')
                              ('':bar_chart: CSV export for *'' @ title survey @ ''* (''
                               @ show_nat (length resps) @ '' responses)'')]))))"

text \<open>
  The \<open>try\<close>/\<open>catch\<close> of \<open>handler\<close> around the subcommand: whatever was thrown, the
  reply is the same warning.
\<close>

definition something_went_wrong :: string where
  "something_went_wrong = '':warning: Something went wrong. Please try again or contact your admin.''"

definition handler_catch ::
    "js_error + http_response \<times> slack_call list \<Rightarrow> http_response \<times> slack_call list" where
  "handler_catch outcome =
     (case outcome of
        Inl err \<Rightarrow> (SlackResponse something_went_wrong, [])
      | Inr finished \<Rightarrow> finished)"

subsection \<open>Sample data\<close>

definition sample_survey :: survey where
  "sample_survey =
     \<lparr>survey_id = ''a1b2c3d4'', title = ''Team pulse'',
      questions = [\<lparr>label = ''How supported do you feel?'', qtype = Scale, options = None\<rparr>],
      createdBy = ''U024BE7LH'', status = ''open'', responseCount = 0,
      createdAt = ''2024-05-01T09:00:00.000Z'',
      settings = Some \<lparr>showResults = False, shareFreetext = True\<rparr>\<rparr>"

definition sample_backend :: backend where
  "sample_backend =
     \<lparr>reachable = True, surveys = [''a1b2c3d4'' \<mapsto> sample_survey],
      responses = Map.empty, tracking = Map.empty, journal = []\<rparr>"

definition share_survey :: survey where
  "share_survey =
     sample_survey\<lparr>questions := [\<lparr>label = ''Any other feedback?'', qtype = FreeText, options = None\<rparr>]\<rparr>"

text \<open>A backend whose only response rates the scale question with 9.\<close>

definition broken_backend :: backend where
  "broken_backend = sample_backend\<lparr>responses := [''a1b2c3d4'' \<mapsto> [[''q_0'' \<mapsto> AStr ''9'']]]\<rparr>"

text \<open>
  The two fields of a creation form. The options line for the second question has a
  no-break space (U+00A0) after the colon, after the comma and at its end.
\<close>

definition nbsp :: string where
  "nbsp = [CHR 0xC2, CHR 0xA0]"

definition sample_questions_text :: string where
  "sample_questions_text =
     ''Mood'' @ [nl] @ ''Events? (multi-select)'' @ [nl] @ ''Days? (Multi-Select)''"

definition sample_options_text :: string where
  "sample_options_text =
     ''Q2: x'' @ [nl] @ ''q2 :'' @ nbsp @ ''Social events,'' @ nbsp @ ''Mentorship '' @ nbsp"


text \<open>Two responses selecting A and B and one selecting A only.\<close>

definition choice_responses :: "response list" where
  "choice_responses =
     [[''q_0'' \<mapsto> AArr [''A'', ''B'']], [''q_0'' \<mapsto> AArr [''A'', ''B'']], [''q_0'' \<mapsto> AArr [''A'']]]"


definition events_question :: question where
  "events_question = \<lparr>label = ''Events'', qtype = MultiSelect, options = None\<rparr>"

section \<open>Lemmas about the string functions\<close>

declare show_nat.simps [simp del]

lemma join_Cons: "join sep (x # xs) = x @ concat (map (\<lambda>y. sep @ y) xs)"
  by (induction xs arbitrary: x) simp_all

lemma map_enumerate_index:
  "map (\<lambda>(i, q). f i) (enumerate n qs) = map f [n ..< n + length qs]"
proof -
  have "(\<lambda>(i, q). f i) = f \<circ> (fst :: nat \<times> 'b \<Rightarrow> nat)"
    by (simp add: fun_eq_iff)
  then have "map (\<lambda>(i, q). f i) (enumerate n qs) = map f (map fst (enumerate n qs))"
    by (simp only: map_map)
  then show ?thesis
    by (simp add: enumerate_eq_zip)
qed

subsection \<open>White space\<close>

declare skip_code.simps [simp del]

lemma code_width_Nil [simp]: "code_width code [] = 0"
  by (simp add: code_width_def)

lemma skip_code_Nil [simp]: "skip_code code [] = []"
  by (simp add: skip_code.simps)

lemma skip_code_none: "code_width code s = 0 \<Longrightarrow> skip_code code s = s"
  by (simp add: skip_code.simps)

lemma skip_code_some:
  "code_width code s \<noteq> 0 \<Longrightarrow> skip_code code s = skip_code code (drop (code_width code s) s)"
  by (subst skip_code.simps) simp

lemma code_width_take:
  assumes "code_width code s = n" and "0 < n"
  shows "take n s \<in> set code" and "n \<le> length s"
proof -
  have ne: "s \<noteq> []" using assms by (auto simp: code_width_def)
  show "take n s \<in> set code"
    using assms by (auto simp: code_width_def split: if_splits)
  show "n \<le> length s"
  proof (rule ccontr)
    assume "\<not> n \<le> length s"
    then have short: "length s < n" by simp
    from assms have "n = 1 \<or> n = 2 \<or> n = 3"
      by (auto simp: code_width_def split: if_splits)
    then show False
    proof (elim disjE)
      assume "n = 1" with short ne show False by simp
    next
      assume n: "n = 2"
      with short have "take 2 s = take 1 s" by simp
      with assms n show False by (auto simp: code_width_def split: if_splits)
    next
      assume n: "n = 3"
      with short have "take 3 s = take 2 s" by simp
      with assms n show False by (auto simp: code_width_def split: if_splits)
    qed
  qed
qed

lemma code_width_skip [simp]: "code_width code (skip_code code s) = 0"
proof (induction code s rule: skip_code.induct)
  case (1 code s)
  then show ?case
    by (cases "code_width code s = 0") (simp_all add: skip_code_none skip_code_some)
qed

lemma white_space_all:
  "list_all (\<lambda>w. code_width white_space (w @ x) = length w
                \<and> code_width (map rev white_space) (rev w @ x) = length w
                \<and> w \<noteq> [] \<and> \<not> is_digit (hd w) \<and> hd w \<noteq> CHR '':'') white_space"
  unfolding white_space_def by (simp add: code_width_def is_digit_def)

lemma white_space_width:
  assumes "w \<in> set white_space"
  shows "code_width white_space (w @ x) = length w"
    and "code_width (map rev white_space) (rev w @ x) = length w"
    and "w \<noteq> []" and "\<not> is_digit (hd w)" and "hd w \<noteq> CHR '':''"
  using assms white_space_all [of x] by (simp_all add: list_all_iff)

lemma skip_space_Nil [simp]: "skip_space [] = []"
  by (simp add: skip_space_def)

lemma starts_with_space_width: "starts_with_space s \<longleftrightarrow> code_width white_space s \<noteq> 0"
proof
  assume "starts_with_space s"
  then obtain w r where w: "w \<in> set white_space" "s = w @ r"
    unfolding starts_with_space_def by blast
  then show "code_width white_space s \<noteq> 0"
    using white_space_width(1) [OF w(1), of r] white_space_width(3) [OF w(1)] by simp
next
  let ?n = "code_width white_space s"
  assume "?n \<noteq> 0"
  then have "take ?n s \<in> set white_space"
    using code_width_take(1) [of white_space s ?n] by simp
  moreover have "s = take ?n s @ drop ?n s" by simp
  ultimately show "starts_with_space s"
    unfolding starts_with_space_def by blast
qed

lemma ends_with_space_width:
  "ends_with_space s \<longleftrightarrow> code_width (map rev white_space) (rev s) \<noteq> 0"
proof
  assume "ends_with_space s"
  then obtain w p where w: "w \<in> set white_space" "s = p @ w"
    unfolding ends_with_space_def by blast
  then show "code_width (map rev white_space) (rev s) \<noteq> 0"
    using white_space_width(2) [OF w(1), of "rev p"] white_space_width(3) [OF w(1)] by simp
next
  let ?n = "code_width (map rev white_space) (rev s)"
  assume "?n \<noteq> 0"
  then have "take ?n (rev s) \<in> set (map rev white_space)"
    using code_width_take(1) [of "map rev white_space" "rev s" ?n] by simp
  then obtain w where w: "w \<in> set white_space" "take ?n (rev s) = rev w" by auto
  have "rev s = take ?n (rev s) @ drop ?n (rev s)" by simp
  then have "rev (rev s) = rev (rev w @ drop ?n (rev s))" using w(2) by simp
  then have "s = rev (drop ?n (rev s)) @ w" by simp
  then show "ends_with_space s"
    unfolding ends_with_space_def using w(1) by blast
qed

lemma all_space_Nil [simp]: "all_space []"
  unfolding all_space_def by (rule exI [of _ "[]"]) simp

lemma skip_space_Cons:
  assumes "w \<in> set white_space"
  shows "skip_space (w @ s) = skip_space s"
  using white_space_width(1) [OF assms, of s] white_space_width(3) [OF assms]
  by (simp add: skip_space_def skip_code_some)

lemma all_space_Cons:
  assumes "w \<in> set white_space" and "all_space s"
  shows "all_space (w @ s)"
proof -
  from assms(2) obtain ws where ws: "set ws \<subseteq> set white_space" "s = concat ws"
    unfolding all_space_def by blast
  then have "set (w # ws) \<subseteq> set white_space \<and> w @ s = concat (w # ws)"
    using assms(1) by simp
  then show ?thesis unfolding all_space_def by blast
qed

lemma all_space_induct [consumes 1, case_names Nil Cons]:
  assumes "all_space s"
    and "P []"
    and "\<And>w s. w \<in> set white_space \<Longrightarrow> all_space s \<Longrightarrow> P s \<Longrightarrow> P (w @ s)"
  shows "P s"
proof -
  from assms(1) obtain ws where ws: "set ws \<subseteq> set white_space" "s = concat ws"
    unfolding all_space_def by blast
  have "P (concat ws)" using ws(1)
  proof (induction ws)
    case Nil
    then show ?case using assms(2) by simp
  next
    case (Cons w ws)
    then have "all_space (concat ws)" unfolding all_space_def by auto
    then show ?case using Cons assms(3) by simp
  qed
  then show ?thesis using ws(2) by simp
qed

lemma skip_space_prefix:
  assumes "all_space ws" and "\<not> starts_with_space b"
  shows "skip_space (ws @ b) = b"
  using assms
proof (induction ws rule: all_space_induct)
  case Nil
  then show ?case by (simp add: starts_with_space_width skip_space_def skip_code_none)
next
  case (Cons w s)
  then show ?case by (simp add: skip_space_Cons)
qed

lemma skip_space_split:
  "\<exists>ws. s = ws @ skip_space s \<and> all_space ws"
  unfolding skip_space_def
proof (induction white_space s rule: skip_code.induct)
  case (1 s)
  show ?case
  proof (cases "code_width white_space s = 0")
    case True
    then have "s = [] @ skip_code white_space s \<and> all_space []"
      by (simp add: skip_code_none)
    then show ?thesis by blast
  next
    case False
    let ?n = "code_width white_space s"
    from 1 [OF False] obtain ws where
      ws: "drop ?n s = ws @ skip_code white_space (drop ?n s)" "all_space ws" by blast
    have w: "take ?n s \<in> set white_space"
      using code_width_take(1) [of white_space s ?n] False by simp
    have "s = take ?n s @ drop ?n s" by simp
    also have "\<dots> = (take ?n s @ ws) @ skip_code white_space s"
      using ws(1) False by (simp add: skip_code_some [of white_space s])
    finally have "s = (take ?n s @ ws) @ skip_code white_space s" .
    moreover have "all_space (take ?n s @ ws)"
      using w ws(2) by (rule all_space_Cons)
    ultimately show ?thesis by blast
  qed
qed

lemma skip_space_not_space [simp]: "\<not> starts_with_space (skip_space s)"
  by (simp add: starts_with_space_width skip_space_def)

lemma not_starts_with_space_Nil [simp]: "\<not> starts_with_space []"
  by (simp add: starts_with_space_width)

lemma all_space_skip: "all_space s \<longleftrightarrow> skip_space s = []"
proof
  assume "all_space s"
  then show "skip_space s = []"
    using skip_space_prefix [of s "[]"] by simp
next
  assume "skip_space s = []"
  then show "all_space s"
    using skip_space_split [of s] by auto
qed

lemma all_space_suffix:
  assumes "all_space s" and "s \<noteq> []"
  shows "ends_with_space s"
  using assms
proof (induction s rule: all_space_induct)
  case Nil
  then show ?case by simp
next
  case (Cons w s)
  show ?case
  proof (cases "s = []")
    case True
    then have "w @ s = [] @ w" by simp
    then show ?thesis unfolding ends_with_space_def using Cons(1) by blast
  next
    case False
    with Cons obtain v p where "v \<in> set white_space" "s = p @ v"
      unfolding ends_with_space_def by blast
    then have "v \<in> set white_space \<and> w @ s = (w @ p) @ v" by simp
    then show ?thesis unfolding ends_with_space_def by blast
  qed
qed

lemma ends_with_space_append: "ends_with_space s \<Longrightarrow> ends_with_space (p @ s)"
  unfolding ends_with_space_def by (metis append.assoc)

lemma all_space_hd:
  assumes "all_space s" and "s \<noteq> []"
  shows "\<not> is_digit (hd s)" and "hd s \<noteq> CHR '':''"
proof -
  from assms(1) obtain ws where ws: "set ws \<subseteq> set white_space" "s = concat ws"
    unfolding all_space_def by blast
  have "\<exists>w \<in> set white_space. hd (concat ws) = hd w" if "concat ws \<noteq> []"
    using ws(1) that
  proof (induction ws)
    case Nil
    then show ?case by simp
  next
    case (Cons w ws)
    then have "w \<in> set white_space" by simp
    then have "w \<noteq> []" by (rule white_space_width(3))
    then have "hd (concat (w # ws)) = hd w" by simp
    then show ?case using \<open>w \<in> set white_space\<close> by blast
  qed
  then obtain w where w: "w \<in> set white_space" "hd s = hd w"
    using assms(2) ws(2) by blast
  show "\<not> is_digit (hd s)" and "hd s \<noteq> CHR '':''"
    using white_space_width(4,5) [OF w(1)] w(2) by simp_all
qed

lemma trim_not_ends_with_space: "\<not> ends_with_space (trim s)"
  by (simp add: ends_with_space_width trim_def)

lemma skip_code_Cons:
  "skip_code code (c # s) =
     (if code_width code (c # s) = 0 then c # s
      else skip_code code (drop (code_width code (c # s)) (c # s)))"
  by (rule skip_code.simps)

section \<open>Lemmas about double rounding\<close>

text \<open>
  \<open>floor_log2\<close> is the binary exponent; \<open>fl\<close> is exact on the doubles themselves
  (\<open>fl_exact\<close>) and otherwise within a relative error of \<open>2^-53\<close> (\<open>fl_near\<close>).
\<close>

lemma pow2_powi: "pow2 e = 2 powi e"
  by (simp add: pow2_def power_int_def power_inverse [symmetric] inverse_eq_divide power_one_over)

lemma pow2_pos [simp]: "0 < pow2 e"
  by (simp add: pow2_def)

lemma pow2_abs [simp]: "\<bar>pow2 e\<bar> = pow2 e"
  by (simp add: abs_of_pos)

lemma pow2_nonzero [simp]: "pow2 e \<noteq> 0"
  using pow2_pos [of e] by linarith

lemma pow2_not_neg [simp]: "\<not> pow2 e < 0"
  using pow2_pos [of e] by linarith

lemma pow2_add: "pow2 (a + b) = pow2 a * pow2 b"
  by (simp add: pow2_powi power_int_add)

lemma pow2_diff: "pow2 (a - b) = pow2 a / pow2 b"
  by (simp add: pow2_powi power_int_diff)

lemma pow2_mono: "a \<le> b \<Longrightarrow> pow2 a \<le> pow2 b"
  by (simp add: pow2_powi power_int_increasing)

lemma pow2_strict_mono: "a < b \<Longrightarrow> pow2 a < pow2 b"
  by (simp add: pow2_powi power_int_strict_increasing)

lemma pow2_less_cancel: "pow2 a < pow2 b \<Longrightarrow> a < b"
  using pow2_mono [of b a] by (cases "a < b") auto

lemma pow2_nat: "pow2 (int n) = 2 ^ n"
  by (simp add: pow2_def)

lemma pow2_0 [simp]: "pow2 0 = 1"
  by (simp add: pow2_def)

lemma floor_log2_bounds:
  assumes "0 < x"
  shows "pow2 (floor_log2 x) \<le> x \<and> x < pow2 (floor_log2 x + 1)"
proof -
  obtain a b where ab: "quotient_of x = (a, b)" by (cases "quotient_of x")
  then have b: "0 < b" by (rule quotient_of_denom_pos)
  have x: "x = of_int a / of_int b" using ab by (rule quotient_of_div)
  have a: "0 < a" using assms b x by (simp add: zero_less_divide_iff)
  let ?la = "bitlen a" and ?lb = "bitlen b"
  from bitlen_bounds [OF a] have a1: "2 ^ nat (?la - 1) \<le> a" and a2: "a < 2 ^ nat ?la" by auto
  from bitlen_bounds [OF b] have b1: "2 ^ nat (?lb - 1) \<le> b" and b2: "b < 2 ^ nat ?lb" by auto
  have la: "1 \<le> ?la" using a by (auto simp: bitlen_alt_def)
  have lb: "1 \<le> ?lb" using b by (auto simp: bitlen_alt_def)
  have A1: "pow2 (?la - 1) \<le> of_int a"
  proof -
    have "(of_int (2 ^ nat (?la - 1)) :: rat) \<le> of_int a" using a1 by (simp only: of_int_le_iff)
    then show ?thesis using la by (simp add: pow2_def)
  qed
  have A2: "of_int a < pow2 ?la"
  proof -
    have "(of_int a :: rat) < of_int (2 ^ nat ?la)" using a2 by (simp only: of_int_less_iff)
    then show ?thesis using la by (simp add: pow2_def)
  qed
  have B1: "pow2 (?lb - 1) \<le> of_int b"
  proof -
    have "(of_int (2 ^ nat (?lb - 1)) :: rat) \<le> of_int b" using b1 by (simp only: of_int_le_iff)
    then show ?thesis using lb by (simp add: pow2_def)
  qed
  have B2: "of_int b < pow2 ?lb"
  proof -
    have "(of_int b :: rat) < of_int (2 ^ nat ?lb)" using b2 by (simp only: of_int_less_iff)
    then show ?thesis using lb by (simp add: pow2_def)
  qed
  let ?d = "?la - ?lb"
  have bpos: "(0::rat) < of_int b" using b by simp
  have upper: "x < pow2 (?d + 1)"
  proof -
    have "of_int a < pow2 ?la" by (rule A2)
    also have "pow2 ?la = pow2 (?d + 1) * pow2 (?lb - 1)"
      by (simp add: pow2_add [symmetric])
    also have "\<dots> \<le> pow2 (?d + 1) * of_int b"
      using B1 by (simp add: mult_left_mono less_imp_le)
    finally show ?thesis using bpos by (simp add: x pos_divide_less_eq)
  qed
  have lower: "pow2 (?d - 1) < x"
  proof -
    have "pow2 (?d - 1) * of_int b < pow2 (?d - 1) * pow2 ?lb"
      using B2 by (simp add: mult_strict_left_mono)
    also have "\<dots> = pow2 (?la - 1)" by (simp add: pow2_add [symmetric])
    also have "\<dots> \<le> of_int a" by (rule A1)
    finally show ?thesis using bpos by (simp add: x pos_less_divide_eq)
  qed
  show ?thesis
  proof (cases "pow2 ?d \<le> x")
    case True
    then show ?thesis using upper ab by (simp add: floor_log2_def)
  next
    case False
    then show ?thesis using lower ab by (simp add: floor_log2_def less_imp_le)
  qed
qed

lemma floor_log2_unique:
  assumes "pow2 e \<le> x" "x < pow2 (e + 1)"
  shows "floor_log2 x = e"
proof -
  have "0 < x" using assms(1) pow2_pos [of e] by linarith
  from floor_log2_bounds [OF this]
  have "pow2 (floor_log2 x) \<le> x" "x < pow2 (floor_log2 x + 1)" by auto
  then have "pow2 (floor_log2 x) < pow2 (e + 1)" "pow2 e < pow2 (floor_log2 x + 1)"
    using assms by linarith+
  then have "floor_log2 x < e + 1" "e < floor_log2 x + 1"
    by (auto dest: pow2_less_cancel)
  then show ?thesis by linarith
qed

lemma round_half_even_near: "\<bar>of_int (round_half_even m) - m\<bar> \<le> 1 / 2"
proof -
  have "of_int \<lfloor>m\<rfloor> \<le> m" "m < of_int \<lfloor>m\<rfloor> + 1" by linarith+
  then show ?thesis
    by (auto simp: round_half_even_def Let_def)
qed

lemma round_half_even_int [simp]: "round_half_even (of_int k) = k"
  by (simp add: round_half_even_def)


lemma fl_near:
  assumes "pow2 (- 1022) \<le> x" and "x < pow2 1023"
  shows "\<exists>r. fl x = Fin r \<and> \<bar>r - x\<bar> \<le> x / 2 ^ 53 \<and> 0 < r"
proof -
  have xpos: "0 < x" using assms(1) pow2_pos [of "- 1022"] by linarith
  let ?e = "floor_log2 x"
  from floor_log2_bounds [OF xpos] have e1: "pow2 ?e \<le> x" and e2: "x < pow2 (?e + 1)" by auto
  have "pow2 (- 1022) < pow2 (?e + 1)" using assms(1) e2 by linarith
  then have elo: "- 1022 \<le> ?e" using pow2_less_cancel [of "- 1022" "?e + 1"] by linarith
  have "pow2 ?e < pow2 1023" using assms(2) e1 by linarith
  then have ehi: "?e \<le> 1022" using pow2_less_cancel [of ?e 1023] by linarith
  let ?u = "pow2 (?e - 52)"
  let ?n = "round_half_even (x / ?u)"
  let ?r = "of_int ?n * ?u"
  have upos: "0 < ?u" by simp
  have "\<bar>of_int ?n - x / ?u\<bar> \<le> 1 / 2" by (rule round_half_even_near)
  then have "\<bar>of_int ?n - x / ?u\<bar> * ?u \<le> 1 / 2 * ?u"
    using upos by (simp add: mult_right_mono less_imp_le)
  moreover have "\<bar>of_int ?n - x / ?u\<bar> * ?u = \<bar>?r - x\<bar>"
  proof -
    have "\<bar>of_int ?n - x / ?u\<bar> * ?u = \<bar>(of_int ?n - x / ?u) * ?u\<bar>"
      using upos by (simp add: abs_mult)
    also have "(of_int ?n - x / ?u) * ?u = ?r - x"
      using upos by (simp add: left_diff_distrib)
    finally show ?thesis .
  qed
  ultimately have near: "\<bar>?r - x\<bar> \<le> ?u / 2" by simp
  have u53: "?u / 2 = pow2 ?e / 2 ^ 53"
  proof -
    have "pow2 52 = (2 ^ 52 :: rat)" by (simp add: pow2_def)
    then have "pow2 (?e - 52) = pow2 ?e / 2 ^ 52" using pow2_diff [of ?e 52] by simp
    then show ?thesis by simp
  qed
  have half: "?u / 2 \<le> x / 2 ^ 53"
  proof -
    have "pow2 ?e / 2 ^ 53 \<le> x / 2 ^ 53" using e1 by (simp add: divide_right_mono)
    then show ?thesis using u53 by simp
  qed
  have bound: "\<bar>?r - x\<bar> \<le> x / 2 ^ 53" using near half by linarith
  have "x / 2 ^ 53 < x" using xpos by (simp add: divide_less_eq)
  then have rpos: "0 < ?r" using bound by linarith
  have "?r \<le> x + x / 2 ^ 53" using bound by linarith
  also have "\<dots> < x + x" using \<open>x / 2 ^ 53 < x\<close> by linarith
  also have "\<dots> < pow2 1023 + pow2 1023" using assms(2) by linarith
  also have "\<dots> = pow2 1024" using pow2_add [of 1023 1] by (simp add: pow2_def)
  finally have nover: "\<not> pow2 1024 \<le> ?r" by linarith
  have "max ?e (- 1022) = ?e" using elo by simp
  then have "fl x = Fin ?r"
    using xpos nover by (simp add: fl_def Let_def)
  with bound rpos show ?thesis by blast
qed

lemma fl_exact:
  assumes "\<bar>k\<bar> < 2 ^ 53" and "- 1074 \<le> j" and "of_int \<bar>k\<bar> * pow2 j < pow2 1024"
  shows "fl (of_int k * pow2 j) = Fin (of_int k * pow2 j)"
proof (cases "k = 0")
  case True
  then show ?thesis by (simp add: fl_def)
next
  case False
  let ?x = "of_int k * pow2 j :: rat"
  let ?a = "of_int \<bar>k\<bar> * pow2 j :: rat"
  have ax: "\<bar>?x\<bar> = ?a" by (simp add: abs_mult)
  have k1: "(1::rat) \<le> of_int \<bar>k\<bar>" using False by (simp add: of_int_abs [symmetric] del: of_int_abs)
  have apos: "0 < ?a" using k1 by (simp add: zero_less_mult_iff)
  let ?e = "floor_log2 ?a"
  from floor_log2_bounds [OF apos] have e1: "pow2 ?e \<le> ?a" and e2: "?a < pow2 (?e + 1)" by auto
  have "(of_int \<bar>k\<bar> :: rat) < of_int (2 ^ 53)" using assms(1) by (simp only: of_int_less_iff)
  then have "(of_int \<bar>k\<bar> :: rat) < pow2 53" by (simp add: pow2_def)
  then have "?a < pow2 53 * pow2 j" by (simp add: mult_strict_right_mono)
  with e1 have "pow2 ?e < pow2 53 * pow2 j" by (rule order_le_less_trans)
  then have "pow2 ?e < pow2 (53 + j)" by (simp only: pow2_add)
  then have ehi: "?e \<le> j + 52" using pow2_less_cancel [of ?e "53 + j"] by linarith
  let ?e' = "max ?e (- 1022)"
  have e': "?e' \<le> j + 52" using ehi assms(2) by simp
  let ?u = "pow2 (?e' - 52)"
  have "pow2 j = pow2 (j + 52 - ?e') * ?u" by (simp add: pow2_add [symmetric])
  also have "pow2 (j + 52 - ?e') = 2 ^ nat (j + 52 - ?e')" using e' by (simp add: pow2_def)
  finally have pj: "pow2 j = 2 ^ nat (j + 52 - ?e') * ?u" .
  have "?a / ?u = of_int \<bar>k\<bar> * 2 ^ nat (j + 52 - ?e')"
    by (subst pj) simp
  also have "\<dots> = of_int (\<bar>k\<bar> * 2 ^ nat (j + 52 - ?e'))" by simp
  finally have "round_half_even (?a / ?u) = \<bar>k\<bar> * 2 ^ nat (j + 52 - ?e')"
    by (simp only: round_half_even_int)
  then have r: "of_int (round_half_even (?a / ?u)) * ?u = ?a"
    by (subst (2) pj) simp
  have x0: "?x \<noteq> 0" using False by simp
  have sgn: "(if 0 < ?x then ?a else - ?a) = ?x"
    by (simp add: zero_less_mult_iff abs_if)
  have "fl ?x = (let a = \<bar>?x\<bar>; e = max (floor_log2 a) (- 1022); u = pow2 (e - 52);
                    r = of_int (round_half_even (a / u)) * u
                 in if pow2 1024 \<le> r then (if 0 < ?x then PosInf else NegInf)
                    else Fin (if 0 < ?x then r else - r))"
    using x0 by (simp only: fl_def if_False)
  also have "\<dots> = Fin (if 0 < ?x then ?a else - ?a)"
    unfolding Let_def ax r using assms(3) by simp
  finally show ?thesis by (simp only: sgn)
qed

lemma fl_of_int:
  assumes "\<bar>k\<bar> < 2 ^ 53"
  shows "fl (of_int k) = Fin (of_int k)"
proof -
  have "(of_int \<bar>k\<bar> :: rat) < of_int (2 ^ 53)" using assms by (simp only: of_int_less_iff)
  also have "(of_int (2 ^ 53) :: rat) = pow2 53" by (simp add: pow2_def)
  also have "pow2 53 < pow2 1024" by (rule pow2_strict_mono) simp
  finally have "of_int \<bar>k\<bar> * pow2 0 < pow2 1024" by simp
  from fl_exact [OF assms _ this] show ?thesis by simp
qed


lemma fl_numeral: "numeral w < (2 ^ 53 :: int) \<Longrightarrow> fl (numeral w) = Fin (numeral w)"
  using fl_of_int [of "numeral w"] by simp

lemma fl_neg_numeral: "numeral w < (2 ^ 53 :: int) \<Longrightarrow> fl (- numeral w) = Fin (- numeral w)"
  using fl_of_int [of "- numeral w"] by simp

lemma fl_0 [simp]: "fl 0 = Fin 0" by (simp add: fl_def)
lemma fl_1 [simp]: "fl 1 = Fin 1" using fl_of_int [of 1] by simp

lemma fl_dyadic:
  assumes "\<bar>k\<bar> < 2 ^ 53" and "n \<le> 1000"
  shows "fl (of_int k / 2 ^ n) = Fin (of_int k / 2 ^ n)"
proof -
  have p: "pow2 (- int n) = 1 / 2 ^ n" by (simp add: pow2_def)
  have "(of_int \<bar>k\<bar> :: rat) < of_int (2 ^ 53)" using assms(1) by (simp only: of_int_less_iff)
  also have "(of_int (2 ^ 53) :: rat) = pow2 53" by (simp add: pow2_def)
  also have "pow2 53 < pow2 1024" by (rule pow2_strict_mono) simp
  finally have "(of_int \<bar>k\<bar> :: rat) < pow2 1024" .
  moreover have "of_int \<bar>k\<bar> * pow2 (- int n) \<le> (of_int \<bar>k\<bar> :: rat) * 1"
    unfolding p by (intro mult_left_mono) (simp_all add: divide_le_eq)
  ultimately have "of_int \<bar>k\<bar> * pow2 (- int n) < pow2 1024" by linarith
  from fl_exact [OF assms(1) _ this] assms(2) show ?thesis by (simp add: p)
qed

section \<open>Evaluation of numbers\<close>

lemma floor_numeral_div [simp]: "\<lfloor>(numeral a :: rat) / numeral b\<rfloor> = numeral a div numeral b"
  using floor_divide_of_int_eq [of "numeral a" "numeral b", where ?'a = rat] by simp

lemma floor_one_div_numeral [simp]: "\<lfloor>(1 :: rat) / numeral b\<rfloor> = 1 div numeral b"
  using floor_divide_of_int_eq [of 1 "numeral b", where ?'a = rat] by simp

lemma floor_neg_numeral_div [simp]:
  "\<lfloor>- ((numeral a :: rat) / numeral b)\<rfloor> = - numeral a div numeral b"
  using floor_divide_of_int_eq [of "- numeral a" "numeral b", where ?'a = rat] by simp

lemma math_round_of_int [simp]: "math_round (Fin (of_int k)) = Fin (of_int k)"
proof -
  have "\<lfloor>(of_int k :: rat) + 1 / 2\<rfloor> = k" by linarith
  then show ?thesis by simp
qed

lemma math_round_numeral [simp]: "math_round (Fin (numeral w)) = Fin (numeral w)"
  using math_round_of_int [of "numeral w"] by simp

lemmas parse_eval = parseFloat_string_def unsigned_literal_def exponent_part_def skip_space_def
  skip_code_Cons code_width_def white_space_def is_digit_def digits_val_def digit_val_def Let_def
  fl_numeral fl_neg_numeral

lemma parseFloat_9: "parseFloat (Some (AStr ''9'')) = Fin 9"
  by (simp add: parse_eval)

lemma parseFloat_num_5: "parseFloat (Some (ANum 5)) = Fin 5"
  by (simp add: parse_eval show_int_def show_nat.simps)

lemma parseFloat_num_0: "parseFloat (Some (ANum 0)) = Fin 0"
  by (simp add: parse_eval show_int_def show_nat.simps)

lemma scale_section_out_of_range: "scale_section q [[''q_0'' \<mapsto> AStr ''9'']] ''q_0'' = Inl RangeError"
  by (simp add: scale_section_def scale_values_def scale_avg_def parse_eval)

lemma buildResultsBlocks_out_of_range: "buildResultsBlocks sample_survey [[''q_0'' \<mapsto> AStr ''9'']] False True = Inl RangeError"
  by (simp add: buildResultsBlocks_def sample_survey_def question_blocks_def qkey_def show_nat.simps scale_section_out_of_range)

section \<open>Rounding a quotient of counts\<close>

lemma int_quotient_gap:
  fixes a b :: int and d :: rat
  assumes "0 < d" and "of_int a / d < of_int b / d"
  shows "of_int a / d + 1 / d \<le> of_int b / d"
proof -
  have "(of_int a :: rat) < of_int b" using assms by (simp add: divide_less_cancel)
  then have "a < b" by (simp only: of_int_less_iff)
  then have "a + 1 \<le> b" by simp
  then have "(of_int (a + 1) :: rat) \<le> of_int b" by (simp only: of_int_le_iff)
  then have "(of_int (a + 1) :: rat) / d \<le> of_int b / d"
    using assms(1) by (simp add: divide_right_mono)
  then show ?thesis by (simp add: add_divide_distrib)
qed

lemma round_near_quotient:
  fixes y :: rat and p q :: int
  assumes "0 < q" and "\<bar>y - of_int p / of_int q\<bar> < 1 / (2 * of_int q)"
  shows "\<bar>(of_int \<lfloor>y + 1 / 2\<rfloor> :: rat) - of_int p / of_int q\<bar> \<le> 1 / 2"
proof -
  let ?k = "\<lfloor>y + 1 / 2\<rfloor>" and ?x = "of_int p / of_int q :: rat"
  let ?d = "2 * of_int q :: rat"
  have qpos: "(0::rat) < of_int q" using assms(1) by simp
  then have dpos: "0 < ?d" by simp
  have k1: "of_int ?k \<le> y + 1 / 2" and k2: "y + 1 / 2 < of_int ?k + 1" by linarith+
  have y1: "?x - 1 / ?d < y" and y2: "y < ?x + 1 / ?d"
    using assms(2) by linarith+
  have ex: "?x = of_int (2 * p) / ?d" using qpos by simp
  have eu: "of_int ?k + 1 / 2 = (of_int ((2 * ?k + 1) * q) :: rat) / ?d"
    using qpos by (simp add: field_simps)
  have el: "of_int ?k - 1 / 2 = (of_int ((2 * ?k - 1) * q) :: rat) / ?d"
    using qpos by (simp add: field_simps)
  have upper: "?x \<le> of_int ?k + 1 / 2"
  proof (rule ccontr)
    assume "\<not> ?x \<le> of_int ?k + 1 / 2"
    then have "of_int ((2 * ?k + 1) * q) / ?d < of_int (2 * p) / ?d"
      unfolding eu [symmetric] ex [symmetric] by simp
    from int_quotient_gap [OF dpos this]
    have "of_int ?k + 1 / 2 + 1 / ?d \<le> ?x"
      unfolding eu [symmetric] ex [symmetric] .
    with y1 k2 show False by linarith
  qed
  have lower: "of_int ?k - 1 / 2 \<le> ?x"
  proof (rule ccontr)
    assume "\<not> of_int ?k - 1 / 2 \<le> ?x"
    then have "of_int (2 * p) / ?d < of_int ((2 * ?k - 1) * q) / ?d"
      unfolding el [symmetric] ex [symmetric] by simp
    from int_quotient_gap [OF dpos this]
    have "?x + 1 / ?d \<le> of_int ?k - 1 / 2"
      unfolding el [symmetric] ex [symmetric] .
    with y2 k1 show False by linarith
  qed
  from upper lower show ?thesis by linarith
qed


lemma normal_range:
  assumes "1 / 2 ^ 41 \<le> x" and "x < 2 ^ 48"
  shows "pow2 (- 1022) \<le> x" and "x < pow2 1023"
proof -
  have "pow2 (- 1022) \<le> pow2 (- 41)" by (rule pow2_mono) simp
  also have "pow2 (- 41) = 1 / 2 ^ 41" by (simp add: pow2_def)
  finally show "pow2 (- 1022) \<le> x" using assms(1) by (rule order_trans)
  have "pow2 48 \<le> pow2 1023" by (rule pow2_mono) simp
  moreover have "pow2 48 = 2 ^ 48" by (simp add: pow2_def)
  ultimately have "(2 ^ 48 :: rat) \<le> pow2 1023" by simp
  with assms(2) show "x < pow2 1023" by (rule less_le_trans)
qed

text \<open>
  Dividing a count by a count and scaling by a small constant, in doubles, then
  \<open>Math.round\<close>: an integer within one half of the exact scaled quotient.
\<close>

lemma scaled_quotient_round:
  fixes c t s :: nat
  assumes "0 < c" "c < 2 ^ 40" "0 < t" "t < 2 ^ 40" "0 < s" "s \<le> 100"
  shows "\<exists>a k. js_div_by (Fin (of_nat c)) t = Fin a
           \<and> \<bar>a - of_nat c / of_nat t\<bar> \<le> (of_nat c / of_nat t) / 2 ^ 53 \<and> 0 < a
           \<and> math_round (js_times (Fin a) s) = Fin (of_int k)
           \<and> \<bar>(of_int k :: rat) - of_nat (s * c) / of_nat t\<bar> \<le> 1 / 2"
proof -
  define x :: rat where "x = of_nat c / of_nat t"
  define d :: rat where "d = 2 ^ 53"
  have dpos: "0 < d" by (simp add: d_def)
  have cq: "(1::rat) \<le> of_nat c" "(of_nat c :: rat) < 2 ^ 40"
    using assms(1,2) by (simp_all add: of_nat_less_numeral_power_cancel_iff Suc_le_eq)
  have tq: "(1::rat) \<le> of_nat t" "(of_nat t :: rat) < 2 ^ 40"
    using assms(3,4) by (simp_all add: of_nat_less_numeral_power_cancel_iff Suc_le_eq)
  have sq: "(1::rat) \<le> of_nat s" "(of_nat s :: rat) \<le> 100"
    using assms(5,6) by (simp_all add: Suc_le_eq)
  have tpos: "(0::rat) < of_nat t" using tq by linarith
  have xlo: "1 / 2 ^ 40 \<le> x"
  proof -
    have "(1::rat) / 2 ^ 40 \<le> 1 / of_nat t" using tq tpos by (simp add: frac_le)
    also have "\<dots> \<le> x" unfolding x_def using cq tpos by (simp add: divide_right_mono)
    finally show ?thesis .
  qed
  have xhi: "x < 2 ^ 40"
  proof -
    have "x \<le> of_nat c / 1" unfolding x_def using tq cq by (intro divide_left_mono) simp_all
    then show ?thesis using cq by simp
  qed
  have "(1::rat) / 2 ^ 41 \<le> 1 / 2 ^ 40" by simp
  then have xlo': "1 / 2 ^ 41 \<le> x" using xlo by (rule order_trans)
  have "(2::rat) ^ 40 \<le> 2 ^ 48" by simp
  with xhi have xhi': "x < 2 ^ 48" by (rule less_le_trans)
  from fl_near [OF normal_range [OF xlo' xhi']]
  obtain a where a: "fl x = Fin a" "\<bar>a - x\<bar> \<le> x / d" "0 < a"
    unfolding d_def by blast
  have "(0::rat) < 1 / 2 ^ 40" by simp
  then have xpos: "0 < x" using xlo by (rule less_le_trans)
  have "x / d \<le> x / 2" using xpos by (simp add: frac_le d_def)
  with a(2) have ax2: "\<bar>a - x\<bar> \<le> x / 2" by (rule order_trans)
  have alo: "x / 2 \<le> a" using ax2 xpos by linarith
  have ahi: "a \<le> 2 * x" using ax2 xpos by linarith
  define y0 where "y0 = a * of_nat s"
  have ylo: "1 / 2 ^ 41 \<le> y0"
  proof -
    have "(1::rat) / 2 ^ 41 \<le> x / 2" using xlo by simp
    also have "\<dots> \<le> a * 1" using alo by simp
    also have "\<dots> \<le> y0" unfolding y0_def using sq a(3) by (intro mult_left_mono) simp_all
    finally show ?thesis .
  qed
  have yhi: "y0 < 2 ^ 48"
  proof -
    have "y0 \<le> a * 100" unfolding y0_def using sq a(3) by (intro mult_left_mono) simp_all
    also have "\<dots> \<le> 2 * x * 100" using ahi by simp
    also have "\<dots> < 2 * 2 ^ 40 * 100" using xhi by simp
    also have "\<dots> \<le> (2 ^ 48 :: rat)" by simp
    finally show ?thesis .
  qed
  from fl_near [OF normal_range [OF ylo yhi]]
  obtain y where y: "fl y0 = Fin y" "\<bar>y - y0\<bar> \<le> y0 / d" "0 < y"
    unfolding d_def by blast
  define k where "k = \<lfloor>y + 1 / 2\<rfloor>"
  have div: "js_div_by (Fin (of_nat c)) t = Fin a"
    using assms(3) a(1) by (simp add: x_def)
  have rnd: "math_round (js_times (Fin a) s) = Fin (of_int k)"
    using y(1) by (simp add: y0_def k_def)
  define w where "w = of_nat s * x / d"
  have "y0 \<le> 2 * x * of_nat s"
    unfolding y0_def using ahi by (intro mult_right_mono) simp_all
  then have "y0 / d \<le> 2 * x * of_nat s / d"
    using dpos by (simp only: divide_right_mono less_imp_le)
  also have "2 * x * of_nat s / d = 2 * w" by (simp add: w_def)
  finally have B: "y0 / d \<le> 2 * w" .
  have "y0 - of_nat s * x = of_nat s * (a - x)"
    by (simp add: y0_def right_diff_distrib)
  then have "\<bar>y0 - of_nat s * x\<bar> = of_nat s * \<bar>a - x\<bar>"
    by (simp add: abs_mult)
  also have "\<dots> \<le> of_nat s * (x / d)"
    using a(2) by (intro mult_left_mono) simp_all
  also have "\<dots> = w" by (simp add: w_def)
  finally have C: "\<bar>y0 - of_nat s * x\<bar> \<le> w" .
  have err: "\<bar>y - of_nat s * x\<bar> \<le> 3 * w" using y(2) B C by linarith
  have "of_nat s * of_nat c \<le> (100 :: rat) * of_nat c"
    using sq by (intro mult_right_mono) simp_all
  also have "\<dots> < 100 * 2 ^ 40" using cq by simp
  finally have "of_nat s * of_nat c < (100 :: rat) * 2 ^ 40" .
  then have "6 * (of_nat s * of_nat c) < (6 :: rat) * (100 * 2 ^ 40)"
    by (rule mult_strict_left_mono) simp
  also have "(6 :: rat) * (100 * 2 ^ 40) < d" by (simp add: d_def)
  finally have "6 * (of_nat s * of_nat c) / d < 1"
    using dpos by (simp add: pos_divide_less_eq)
  moreover have "(0::rat) < 1 / (2 * of_nat t)" using tpos by simp
  ultimately have "6 * (of_nat s * of_nat c) / d * (1 / (2 * of_nat t)) < 1 * (1 / (2 * of_nat t))"
    by (rule mult_strict_right_mono)
  moreover have "3 * w = 6 * (of_nat s * of_nat c) / d * (1 / (2 * of_nat t))"
    using tpos dpos by (simp add: w_def x_def mult.commute)
  ultimately have small: "3 * w < 1 / (2 * of_nat t)" by simp
  have sx: "of_nat s * x = of_int (int (s * c)) / of_int (int t)"
    by (simp add: x_def)
  have "\<bar>y - of_int (int (s * c)) / of_int (int t)\<bar> < 1 / (2 * of_int (int t))"
    using err small unfolding sx by simp
  from round_near_quotient [OF _ this] assms(3)
  have fin: "\<bar>of_int k - of_nat (s * c) / of_nat t\<bar> \<le> (1 / 2 :: rat)" by (simp add: k_def)
  show ?thesis
  proof (intro exI conjI)
    show "js_div_by (Fin (of_nat c)) t = Fin a" by (rule div)
    show "\<bar>a - of_nat c / of_nat t\<bar> \<le> (of_nat c / of_nat t) / 2 ^ 53"
      using a(2) by (simp add: x_def d_def)
    show "0 < a" by (rule a(3))
    show "math_round (js_times (Fin a) s) = Fin (of_int k)" by (rule rnd)
    show "\<bar>of_int k - of_nat (s * c) / of_nat t\<bar> \<le> (1 / 2 :: rat)" by (rule fin)
  qed
qed

text \<open>\<open>Math.round(k / 10)\<close> for a non-negative integer \<open>k\<close>.\<close>

lemma tenth_round:
  fixes k :: int
  assumes "0 \<le> k" and "k < 2 ^ 40"
  shows "math_round (js_div_by (Fin (of_int k)) 10) = Fin (of_int ((k + 5) div 10))"
proof (cases "k = 0")
  case True
  then show ?thesis by simp
next
  case False
  then have kpos: "0 < k" using assms(1) by simp
  show ?thesis
  proof (cases "k mod 10 = 5")
    case True
    define j where "j = k div 10"
    have k: "k = 10 * j + 5" using True div_mult_mod_eq [of k 10] by (simp add: j_def)
    have e: "(of_int k :: rat) / 10 = of_int (2 * j + 1) / 2 ^ 1" by (simp add: k)
    have "\<bar>2 * j + 1\<bar> < 2 ^ 53" using assms k by simp
    then have f: "fl (of_int (2 * j + 1) / 2 ^ 1) = Fin (of_int (2 * j + 1) / 2 ^ 1)"
      by (rule fl_dyadic) simp
    have "(of_int (2 * j + 1) :: rat) / 2 ^ 1 + 1 / 2 = of_int (j + 1)"
      by (simp add: field_simps)
    then have g: "\<lfloor>(of_int (2 * j + 1) :: rat) / 2 ^ 1 + 1 / 2\<rfloor> = j + 1"
      by (simp only: floor_of_int)
    have h: "(k + 5) div 10 = j + 1" using k by simp
    have "js_div_by (Fin (of_int k)) 10 = fl (of_int k / 10)" by simp
    also have "\<dots> = Fin (of_int (2 * j + 1) / 2 ^ 1)" by (simp only: e f)
    finally have "math_round (js_div_by (Fin (of_int k)) 10)
        = Fin (of_int \<lfloor>(of_int (2 * j + 1) :: rat) / 2 ^ 1 + 1 / 2\<rfloor>)"
      by (simp only: math_round.simps)
    then show ?thesis by (simp only: g h)
  next
    case False
    define x :: rat where "x = of_int k / 10"
    have x1: "1 / 10 \<le> x" using kpos by (simp add: x_def)
    have x2: "x < 2 ^ 40"
    proof -
      have "(of_int k :: rat) < of_int (2 ^ 40)" using assms(2) by (simp only: of_int_less_iff)
      then show ?thesis by (simp add: x_def)
    qed
    have "(1::rat) / 2 ^ 41 \<le> 1 / 10" by simp
    then have lo: "1 / 2 ^ 41 \<le> x" using x1 by (rule order_trans)
    have "(2::rat) ^ 40 \<le> 2 ^ 48" by simp
    with x2 have hi: "x < 2 ^ 48" by (rule less_le_trans)
    from fl_near [OF normal_range [OF lo hi]]
    obtain a where a: "fl x = Fin a" "\<bar>a - x\<bar> \<le> x / 2 ^ 53" by blast
    have "x / 2 ^ 53 < 2 ^ 40 / 2 ^ 53" using x2 by (simp add: divide_strict_right_mono)
    also have "\<dots> < (1::rat) / (2 * of_int 10)" by simp
    finally have "\<bar>a - of_int k / of_int 10\<bar> < 1 / (2 * of_int 10)"
      using a(2) by (simp add: x_def)
    from round_near_quotient [OF _ this]
    have near: "\<bar>(of_int \<lfloor>a + 1 / 2\<rfloor> :: rat) - of_int k / 10\<bar> \<le> 1 / 2" by simp
    define K where "K = \<lfloor>a + 1 / 2\<rfloor>"
    have "(of_int K :: rat) * 10 - 5 \<le> of_int k" "(of_int k :: rat) \<le> of_int K * 10 + 5"
      using near by (simp_all add: K_def abs_le_iff field_simps)
    then have "(of_int (K * 10 - 5) :: rat) \<le> of_int k" "(of_int k :: rat) \<le> of_int (K * 10 + 5)"
      by simp_all
    then have "K * 10 - 5 \<le> k" "k \<le> K * 10 + 5" by (simp_all only: of_int_le_iff)
    moreover have "k \<noteq> K * 10 - 5"
    proof
      assume "k = K * 10 - 5"
      then have "k = (K - 1) * 10 + 5" by simp
      then have "k mod 10 = 5" by (simp only: mod_mult_self3) simp
      with False show False by simp
    qed
    moreover have "k \<noteq> K * 10 + 5"
    proof
      assume "k = K * 10 + 5"
      then have "k mod 10 = 5" by (simp only: mod_mult_self3) simp
      with False show False by simp
    qed
    ultimately have r: "0 \<le> k + 5 - K * 10" "k + 5 - K * 10 < 10" by linarith+
    have "k + 5 = K * 10 + (k + 5 - K * 10)" by simp
    then have "(k + 5) div 10 = (K * 10 + (k + 5 - K * 10)) div 10" by simp
    also have "\<dots> = K" using r by simp
    finally have "(k + 5) div 10 = K" .
    moreover have "math_round (js_div_by (Fin (of_int k)) 10) = Fin (of_int K)"
      using a(1) by (simp add: x_def K_def)
    ultimately show ?thesis by simp
  qed
qed


section \<open>Scale questions: the numbers shown\<close>













section \<open>Multi-select questions: the tally and the rows\<close>

lemma first_seen_snoc:
  "first_seen (xs @ [x]) = (if x \<in> set xs then first_seen xs else first_seen xs @ [x])"
  by (simp add: first_seen_def)

lemma first_seen_set [simp]: "set (first_seen xs) = set xs"
  by (simp add: first_seen_def)

lemma first_seen_distinct [simp]: "distinct (first_seen xs)"
  by (simp add: first_seen_def)

lemma bump_map:
  assumes "distinct ks" and "inherited x = None"
  shows "bump (map (\<lambda>k. (k, Count (f k))) ks) x
     = (if x \<in> set ks then map (\<lambda>k. (k, Count (if k = x then f k + 1 else f k))) ks
        else map (\<lambda>k. (k, Count (f k))) ks @ [(x, Count 1)])"
  using assms by (induction ks) auto

lemma tally_snoc: "tally (xs @ [x]) = bump (tally xs) x"
  by (simp add: tally_def)

lemma tally_counts:
  assumes "\<forall>x \<in> set sels. inherited x = None"
  shows "tally sels = map (\<lambda>k. (k, Count (count_list sels k))) (first_seen sels)"
  using assms
proof (induction sels rule: rev_induct)
  case Nil
  then show ?case by (simp add: tally_def first_seen_def)
next
  case (snoc x xs)
  then have ih: "tally xs = map (\<lambda>k. (k, Count (count_list xs k))) (first_seen xs)"
    and x: "inherited x = None" by simp_all
  show ?case
  proof (cases "x \<in> set xs")
    case True
    then show ?thesis
      by (simp add: tally_snoc ih bump_map x first_seen_snoc)
  next
    case False
    then show ?thesis
      by (auto simp add: tally_snoc ih bump_map x first_seen_snoc)
  qed
qed

text \<open>Entries whose values are numbers: the comparator sorts them by descending count.\<close>

lemma insort_key_map:
  assumes "\<And>x. f (h x) = g x"
  shows "insort_key f (h a) (map h xs) = map h (insort_key g a xs)"
  using assms by (induction xs) simp_all

lemma sort_key_map:
  assumes "\<And>x. f (h x) = g x"
  shows "sort_key f (map h xs) = map h (sort_key g xs)"
  using assms by (induction xs) (simp_all add: insort_key_map)

lemma object_entries_map:
  "object_entries (map (\<lambda>(k, c). (k, h c)) props) = map (\<lambda>(k, c). (k, h c)) (object_entries props)"
proof -
  have a: "filter (\<lambda>(k, c). is_array_index k) (map (\<lambda>(k, c). (k, h c)) props)
      = map (\<lambda>(k, c). (k, h c)) (filter (\<lambda>(k, c). is_array_index k) props)"
    by (induction props) auto
  have b: "filter (\<lambda>(k, c). \<not> is_array_index k) (map (\<lambda>(k, c). (k, h c)) props)
      = map (\<lambda>(k, c). (k, h c)) (filter (\<lambda>(k, c). \<not> is_array_index k) props)"
    by (induction props) auto
  have c: "sort_key (\<lambda>(k, c). digits_val k) (map (\<lambda>(k, c). (k, h c)) xs)
      = map (\<lambda>(k, c). (k, h c)) (sort_key (\<lambda>(k, c). digits_val k) xs)" for xs
    by (rule sort_key_map) auto
  show ?thesis by (simp add: object_entries_def a b c)
qed

lemma insert_entry_counts:
  "insert_entry (k, Count c) (map (\<lambda>(k, c). (k, Count c)) ys)
   = map (\<lambda>(k, c). (k, Count c)) (insort_key (\<lambda>(k, c). - int c) (k, c) ys)"
  by (induction ys) (auto simp: compare_entries_def)

lemma sort_by_count_counts:
  "sort_by_count (map (\<lambda>(k, c). (k, Count c)) xs)
   = map (\<lambda>(k, c). (k, Count c)) (sort_key (\<lambda>(k, c). - int c) xs)"
proof (induction xs)
  case Nil
  then show ?case by (simp add: sort_by_count_def)
next
  case (Cons x xs)
  obtain k c where x: "x = (k, c)" by (cases x)
  show ?case
    using Cons by (simp add: sort_by_count_def x insert_entry_counts)
qed

lemma multi_sorted_counts:
  assumes "\<forall>x \<in> set (allSelections rs key). inherited x = None"
  shows "multi_sorted rs key
     = map (\<lambda>(k, c). (k, Count c))
         (sort_key (\<lambda>(k, c). - int c)
            (object_entries (map (\<lambda>k. (k, count_list (allSelections rs key) k))
                               (first_seen (allSelections rs key)))))"
proof -
  have "map (\<lambda>k. (k, Count (count_list (allSelections rs key) k))) (first_seen (allSelections rs key))
      = map (\<lambda>(k, c). (k, Count c))
          (map (\<lambda>k. (k, count_list (allSelections rs key) k)) (first_seen (allSelections rs key)))"
    by simp
  then show ?thesis
    by (simp only: multi_sorted_def Let_def tally_counts [OF assms] object_entries_map
          sort_by_count_counts)
qed

lemma object_entries_plain:
  assumes "\<forall>e \<in> set props. \<not> is_array_index (fst e)"
  shows "object_entries props = props"
proof -
  have a: "filter (\<lambda>(k, c). is_array_index k) props = []"
    using assms by (auto simp: filter_empty_conv)
  have b: "filter (\<lambda>(k, c). \<not> is_array_index k) props = props"
    using assms by (auto simp: filter_id_conv)
  show ?thesis by (simp add: object_entries_def a b)
qed

lemma object_entries_set: "set (object_entries props) = set props"
  by (auto simp: object_entries_def)

lemma object_entries_distinct: "distinct props \<Longrightarrow> distinct (object_entries props)"
  by (auto simp: object_entries_def)

lemma sorted_entries:
  "set (sort_key f (object_entries (map (\<lambda>k. (k, g k)) ks))) = (\<lambda>k. (k, g k)) ` set ks"
  "distinct ks \<Longrightarrow> distinct (map fst (sort_key f (object_entries (map (\<lambda>k. (k, g k)) ks))))"
proof -
  show "set (sort_key f (object_entries (map (\<lambda>k. (k, g k)) ks))) = (\<lambda>k. (k, g k)) ` set ks"
    by (simp add: object_entries_set)
  assume d: "distinct ks"
  then have "distinct (map (\<lambda>k. (k, g k)) ks)"
    by (simp add: distinct_map inj_on_def)
  then have "distinct (sort_key f (object_entries (map (\<lambda>k. (k, g k)) ks)))"
    by (simp add: object_entries_distinct)
  moreover have "inj_on fst (set (sort_key f (object_entries (map (\<lambda>k. (k, g k)) ks))))"
    by (auto simp: object_entries_set inj_on_def)
  ultimately show "distinct (map fst (sort_key f (object_entries (map (\<lambda>k. (k, g k)) ks))))"
    by (simp add: distinct_map)
qed

lemma by_count_sorted:
  "sorted_wrt (\<lambda>a b. snd b \<le> snd a) (sort_key (\<lambda>(k, c). - int c) (es :: (string \<times> nat) list))"
proof -
  have "sorted (map (\<lambda>(k, c). - int c) (sort_key (\<lambda>(k, c). - int c) es))"
    by (rule sorted_sort_key)
  then show ?thesis
    by (simp add: sorted_wrt_map case_prod_beta)
qed

lemma by_count_stable:
  "filter (\<lambda>e. snd e = c) (sort_key (\<lambda>(k, c). - int c) (es :: (string \<times> nat) list))
   = filter (\<lambda>e. snd e = c) es"
proof -
  have "(\<lambda>e :: string \<times> nat. (case e of (k, n) \<Rightarrow> - int n) = - int c) = (\<lambda>e. snd e = c)"
    by (auto simp: fun_eq_iff)
  then show ?thesis
    using sort_key_stable [of "\<lambda>(k, n). - int n" "- int c" es] by simp
qed

lemma count_distinct_le: "distinct xs \<Longrightarrow> count_list xs x \<le> Suc 0"
  by (induction xs) auto

lemma count_concat_le:
  assumes "\<forall>r \<in> set rs. distinct (f r)"
  shows "count_list (concat (map f rs)) x \<le> length rs"
  using assms
proof (induction rs)
  case Nil
  then show ?case by simp
next
  case (Cons r rs)
  have "count_list (f r) x \<le> Suc 0"
    using Cons.prems by (simp add: count_distinct_le)
  then show ?case using Cons by simp
qed

lemma option_row_shown:
  fixes c t :: nat
  assumes "0 < c" "c \<le> t" "t < 2 ^ 32"
  shows "\<exists>p. 0 \<le> p \<and> p \<le> 100
           \<and> \<bar>(of_int p :: rat) - 100 * of_nat c / of_nat t\<bar> \<le> 1 / 2
           \<and> option_row t (opt, Count c)
               = Inr (opt @ '': '' @ concat (replicate (nat ((p + 5) div 10)) full_block)
                      @ concat (replicate (10 - nat ((p + 5) div 10)) light_shade)
                      @ '' '' @ show_int p @ ''% ('' @ show_nat c @ '')'')"
proof -
  have tpos: "0 < t" using assms by simp
  have "(2::nat) ^ 32 \<le> 2 ^ 40" by simp
  then have t40: "t < 2 ^ 40" using assms(3) by simp
  then have c40: "c < 2 ^ 40" using assms(2) by simp
  from scaled_quotient_round [OF assms(1) c40 tpos t40, of 100]
  obtain a p where a: "js_div_by (Fin (of_nat c)) t = Fin a"
    and p: "math_round (js_times (Fin a) 100) = Fin (of_int p)"
      "\<bar>(of_int p :: rat) - of_nat (100 * c) / of_nat t\<bar> \<le> 1 / 2"
    by auto
  have pct: "percent (Count c) t = Fin (of_int p)"
    unfolding percent_def count_number.simps a by (rule p(1))
  define x :: rat where "x = of_nat c / of_nat t"
  have tq: "(0::rat) < of_nat t" using tpos by simp
  have x0: "0 < x" using assms(1) tq by (simp add: x_def)
  have x1: "x \<le> 1" using assms(2) tq by (simp add: x_def divide_le_eq)
  have near: "\<bar>(of_int p :: rat) - 100 * x\<bar> \<le> 1 / 2"
    using p(2) by (simp add: x_def)
  have lo: "(- 1 :: rat) < of_int p" using near x0 x1 by linarith
  have hi: "(of_int p :: rat) < 101" using near x0 x1 by linarith
  have "(of_int (- 1) :: rat) < of_int p" using lo by simp
  then have plo: "- 1 < p" by (simp only: of_int_less_iff)
  have "(of_int p :: rat) < of_int 101" using hi by simp
  then have phi: "p < 101" by (simp only: of_int_less_iff)
  have p0: "0 \<le> p" and p100: "p \<le> 100" using plo phi by simp_all
  have "(100 :: int) < 2 ^ 40" by simp
  then have "p < 2 ^ 40" using p100 by simp
  from tenth_round [OF p0 this]
  have bar: "math_round (js_div_by (Fin (of_int p)) 10) = Fin (of_int ((p + 5) div 10))" .
  define b where "b = (p + 5) div 10"
  have b0: "0 \<le> b" and b10: "b \<le> 10" using p0 p100 by (simp_all add: b_def)
  have rep1: "js_repeat full_block (Fin (of_int b)) = Inr (concat (replicate (nat b) full_block))"
    using b0 by simp
  have "js_minus 10 (Fin (of_int b)) = fl (of_int (10 - b))" by simp
  also have "\<dots> = Fin (of_int (10 - b))" using b0 b10 by (intro fl_of_int) simp
  finally have rep2: "js_repeat light_shade (js_minus 10 (Fin (of_int b)))
      = Inr (concat (replicate (10 - nat b) light_shade))"
    using b0 b10 by (simp add: nat_diff_distrib)
  have row: "option_row t (opt, Count c)
               = Inr (opt @ '': '' @ concat (replicate (nat b) full_block)
                      @ concat (replicate (10 - nat b) light_shade)
                      @ '' '' @ show_int p @ ''% ('' @ show_nat c @ '')'')"
    unfolding option_row_def Let_def prod.case pct bar b_def [symmetric] rep1 rep2
    by simp
  show ?thesis
    using p0 p100 near row unfolding x_def b_def by (intro exI [of _ p]) simp
qed

lemma collect_rows:
  assumes "\<forall>e \<in> set es. \<exists>p. P e p \<and> f e = Inr (g (e, p))"
  shows "\<exists>ps. length ps = length es \<and> list_all2 P es ps
           \<and> collect (map f es) = Inr (map g (zip es ps))"
  using assms
proof (induction es)
  case Nil
  then show ?case by simp
next
  case (Cons e es)
  then obtain ps where ps: "length ps = length es" "list_all2 P es ps"
      "collect (map f es) = Inr (map g (zip es ps))"
    by auto
  from Cons.prems obtain p where p: "P e p" "f e = Inr (g (e, p))" by auto
  show ?case
    using ps p by (intro exI [of _ "p # ps"]) simp
qed

lemma option_row_text:
  "option_row tot (opt, Text t) = Inr (opt @ '':  NaN% ('' @ t @ '')'')"
  by (simp add: option_row_def percent_def)

lemma single_entry:
  "sort_by_count (object_entries [e]) = [e]"
  by (cases e) (simp add: sort_by_count_def object_entries_def)

lemma inherited_row:
  assumes "inherited opt = Some t" and "opt \<noteq> ''__proto__''"
  shows "multi_section q [[key \<mapsto> AArr [opt]]] key
         = Inr (''*'' @ label q @ ''*'' @ [nl] @ opt @ '':  NaN% ('' @ t @ ''1)'')"
  using assms
  by (simp add: multi_section_def multi_sorted_def allSelections_def tally_def single_entry
        option_row_text)

lemma proto_dropped: "multi_sorted [[key \<mapsto> AArr [''__proto__'']]] key = []"
  by (simp add: multi_sorted_def allSelections_def tally_def inherited_def sort_by_count_def
        object_entries_def)

lemma whole_percent:
  assumes "\<bar>(of_int p :: rat) - x\<bar> \<le> 1 / 2"
    and "of_int k - 1 / 2 < x" and "x < of_int k + 1 / 2"
  shows "p = k"
proof -
  have "(of_int p :: rat) < of_int k + 1" "(of_int k :: rat) - 1 < of_int p"
    using assms by linarith+
  then have "(of_int p :: rat) < of_int (k + 1)" "(of_int (k - 1) :: rat) < of_int p"
    by simp_all
  then have "p < k + 1" "k - 1 < p" by (simp_all only: of_int_less_iff)
  then show ?thesis by simp
qed

lemma choice_responses_shown:
  "multi_sorted choice_responses ''q_0'' = [(''A'', Count 3), (''B'', Count 2)]"
  "multi_section events_question choice_responses ''q_0''
       = Inr (''*Events*'' @ [nl]
              @ ''A: '' @ concat (replicate 10 full_block) @ '' 100% (3)'' @ [nl]
              @ ''B: '' @ concat (replicate 7 full_block) @ concat (replicate 3 light_shade)
              @ '' 67% (2)'')"
proof -
  show sorted: "multi_sorted choice_responses ''q_0'' = [(''A'', Count 3), (''B'', Count 2)]"
    by (simp add: multi_sorted_def allSelections_def choice_responses_def tally_def inherited_def
          object_entries_def sort_by_count_def compare_entries_def is_array_index_def is_digit_def)
  have len: "length choice_responses = 3"
    by (simp add: choice_responses_def)
  from option_row_shown [of 3 3 "''A''"] obtain p1 where
    p1: "\<bar>(of_int p1 :: rat) - 100 * of_nat 3 / of_nat 3\<bar> \<le> 1 / 2"
    and r1: "option_row 3 (''A'', Count 3)
      = Inr (''A'' @ '': '' @ concat (replicate (nat ((p1 + 5) div 10)) full_block)
             @ concat (replicate (10 - nat ((p1 + 5) div 10)) light_shade)
             @ '' '' @ show_int p1 @ ''% ('' @ show_nat 3 @ '')'')"
    by auto
  from option_row_shown [of 2 3 "''B''"] obtain p2 where
    p2: "\<bar>(of_int p2 :: rat) - 100 * of_nat 2 / of_nat 3\<bar> \<le> 1 / 2"
    and r2: "option_row 3 (''B'', Count 2)
      = Inr (''B'' @ '': '' @ concat (replicate (nat ((p2 + 5) div 10)) full_block)
             @ concat (replicate (10 - nat ((p2 + 5) div 10)) light_shade)
             @ '' '' @ show_int p2 @ ''% ('' @ show_nat 2 @ '')'')"
    by auto
  have e1: "p1 = 100" using p1 by (intro whole_percent [of p1 "100 * of_nat 3 / of_nat 3"]) simp_all
  have e2: "p2 = 67" using p2 by (intro whole_percent [of p2 "100 * of_nat 2 / of_nat 3"]) simp_all
  show "multi_section events_question choice_responses ''q_0''
       = Inr (''*Events*'' @ [nl]
              @ ''A: '' @ concat (replicate 10 full_block) @ '' 100% (3)'' @ [nl]
              @ ''B: '' @ concat (replicate 7 full_block) @ concat (replicate 3 light_shade)
              @ '' 67% (2)'')"
    unfolding multi_section_def Let_def sorted len
    using r1 [unfolded e1] r2 [unfolded e2]
    by (simp add: events_question_def show_int_def show_nat.simps)
qed

section \<open>Properties of store.js\<close>

lemma store_get_reachable [simp]: "reachable b \<Longrightarrow> store_get b store k = Inr (store b k)"
  by (simp add: store_get_def)

lemma store_get_fault [simp]: "\<not> reachable b \<Longrightarrow> store_get b store k = Inl StorageFault"
  by (simp add: store_get_def)

lemma or_empty_simps [simp]: "or_empty None = []" "or_empty (Some xs) = xs"
  by (simp_all add: or_empty_def)

lemma addResponse_reachable:
  assumes "reachable b"
  shows "addResponse b surveyId answers =
    (let existing = or_empty (responses b surveyId) @ [answers];
         b1 = b\<lparr>responses := (responses b)(surveyId \<mapsto> existing),
                 journal := journal b @ [(ResponsesStore, surveyId)]\<rparr>
     in case surveys b surveyId of
          None \<Rightarrow> Inr (b1, length existing)
        | Some survey \<Rightarrow>
            Inr (b1\<lparr>surveys := (surveys b)(surveyId \<mapsto> survey\<lparr>responseCount := length existing\<rparr>),
                     journal := journal b1 @ [(SurveysStore, surveyId)]\<rparr>, length existing))"
  using assms
  by (simp add: addResponse_def setJSON_responses_def setJSON_surveys_def Let_def split: option.splits)

lemma markUserResponded_reachable:
  assumes "reachable b"
  shows "markUserResponded b surveyId userId =
    (if dedup_digest surveyId userId \<in> set (or_empty (tracking b surveyId)) then Inr b
     else Inr (b\<lparr>tracking := (tracking b)(surveyId \<mapsto>
                   or_empty (tracking b surveyId) @ [dedup_digest surveyId userId]),
                 journal := journal b @ [(TrackingStore, surveyId)]\<rparr>))"
  using assms by (simp add: markUserResponded_def setJSON_tracking_def Let_def)

lemma dedup_digest_inj: "dedup_digest s u = dedup_digest s u' \<longleftrightarrow> u = u'"
  by (simp add: dedup_digest_def)

subsection \<open>Deduplication\<close>

text \<open>Marking other (survey, user) pairs never adds the digest of this pair.\<close>

lemma markUserResponded_seq_others:
  assumes "reachable b" "dedup_digest sid uid \<notin> set (or_empty (tracking b sid))"
    "(sid, uid) \<notin> set others"
  shows "\<exists>b0. markUserResponded_seq b others = Inr b0 \<and> reachable b0 \<and>
           dedup_digest sid uid \<notin> set (or_empty (tracking b0 sid))"
  using assms
proof (induction others arbitrary: b)
  case Nil
  then show ?case by simp
next
  case (Cons p ps)
  obtain s u where p: "p = (s, u)" by (cases p)
  show ?case
  proof (cases "dedup_digest s u \<in> set (or_empty (tracking b s))")
    case True
    with Cons p show ?thesis by (simp add: markUserResponded_reachable)
  next
    case False
    let ?b1 = "b\<lparr>tracking := (tracking b)(s \<mapsto> or_empty (tracking b s) @ [dedup_digest s u]),
                 journal := journal b @ [(TrackingStore, s)]\<rparr>"
    have m: "markUserResponded b s u = Inr ?b1"
      using Cons.prems(1) False by (simp add: markUserResponded_reachable)
    have "dedup_digest sid uid \<notin> set (or_empty (tracking ?b1 sid))"
      using Cons.prems p by (auto simp: dedup_digest_inj)
    moreover have "reachable ?b1" using Cons.prems by simp
    moreover have "(sid, uid) \<notin> set ps" using Cons.prems by simp
    ultimately obtain b0 where "markUserResponded_seq ?b1 ps = Inr b0 \<and> reachable b0 \<and>
           dedup_digest sid uid \<notin> set (or_empty (tracking b0 sid))"
      using Cons.IH by blast
    with m p show ?thesis by simp
  qed
qed

text \<open>
  C2. For a fixed pair (surveyId, userId) whose digest is not yet in the survey's digest
  set, and after any sequence of \<open>markUserResponded\<close> calls for other pairs:
  \<open>hasUserResponded\<close> returns false; after one \<open>markUserResponded\<close> it returns true; a
  second \<open>markUserResponded\<close> returns the backend as it was, journal included (no write),
  so the digest set has grown by exactly one entry.
\<close>

theorem dedup_check_then_mark:
  assumes "reachable b"
    and "dedup_digest surveyId userId \<notin> set (or_empty (tracking b surveyId))"
    and "(surveyId, userId) \<notin> set others"
  shows "\<exists>b0 b1. markUserResponded_seq b others = Inr b0
           \<and> hasUserResponded b0 surveyId userId = Inr False
           \<and> markUserResponded b0 surveyId userId = Inr b1
           \<and> hasUserResponded b1 surveyId userId = Inr True
           \<and> markUserResponded b1 surveyId userId = Inr b1
           \<and> length (or_empty (tracking b1 surveyId))
               = Suc (length (or_empty (tracking b0 surveyId)))"
proof -
  obtain b0 where b0: "markUserResponded_seq b others = Inr b0" "reachable b0"
      "dedup_digest surveyId userId \<notin> set (or_empty (tracking b0 surveyId))"
    using markUserResponded_seq_others [OF assms] by blast
  let ?b1 = "b0\<lparr>tracking := (tracking b0)(surveyId \<mapsto>
                    or_empty (tracking b0 surveyId) @ [dedup_digest surveyId userId]),
                 journal := journal b0 @ [(TrackingStore, surveyId)]\<rparr>"
  have "hasUserResponded b0 surveyId userId = Inr False"
    using b0 by (simp add: hasUserResponded_def)
  moreover have "markUserResponded b0 surveyId userId = Inr ?b1"
    using b0 by (simp add: markUserResponded_reachable)
  moreover have "hasUserResponded ?b1 surveyId userId = Inr True"
    using b0 by (simp add: hasUserResponded_def)
  moreover have "markUserResponded ?b1 surveyId userId = Inr ?b1"
    using b0 by (simp add: markUserResponded_reachable)
  moreover have "length (or_empty (tracking ?b1 surveyId))
      = Suc (length (or_empty (tracking b0 surveyId)))"
    by simp
  ultimately show ?thesis using b0(1) by blast
qed

theorem dedup_check_then_mark_witness:
  "\<exists>b0 b1. markUserResponded_seq sample_backend
              [(''a1b2c3d4'', ''U0OTHER''), (''ffff0000'', ''U024BE7LH'')] = Inr b0
           \<and> hasUserResponded b0 ''a1b2c3d4'' ''U024BE7LH'' = Inr False
           \<and> markUserResponded b0 ''a1b2c3d4'' ''U024BE7LH'' = Inr b1
           \<and> hasUserResponded b1 ''a1b2c3d4'' ''U024BE7LH'' = Inr True
           \<and> markUserResponded b1 ''a1b2c3d4'' ''U024BE7LH'' = Inr b1
           \<and> length (or_empty (tracking b1 ''a1b2c3d4''))
               = Suc (length (or_empty (tracking b0 ''a1b2c3d4'')))"
  using dedup_check_then_mark [of sample_backend "''a1b2c3d4''" "''U024BE7LH''"
      "[(''a1b2c3d4'', ''U0OTHER''), (''ffff0000'', ''U024BE7LH'')]"]
  by (simp add: sample_backend_def)

text \<open>
  C4, as the claim states it, fails: the digest of the pair is the plain SHA-256 digest of
  \<open>surveyId:userId\<close>; no key and no salt enter it, so it is no HMAC under any key.
\<close>

theorem dedup_digest_keyed_counterexample:
  "dedup_digest ''a1b2c3d4'' ''U024BE7LH'' = Sha256Hex ''a1b2c3d4:U024BE7LH''
   \<and> \<not> (\<exists>key msg. dedup_digest ''a1b2c3d4'' ''U024BE7LH'' = HmacSha256Hex key msg)"
  by (simp add: dedup_digest_def)

text \<open>
  C4, amended. The digest of a pair is the unkeyed SHA-256 hex digest of the survey id, a
  colon and the user id. A successful \<open>markUserResponded\<close> leaves the survey store, the
  response store and every other key of the tracking store as they were, and either
  changes nothing or appends that digest to the survey's digest list, with one write under
  the survey id: the raw user id is stored nowhere.
\<close>

theorem dedup_digest_plain_sha256:
  "dedup_digest surveyId userId = Sha256Hex (surveyId @ '':'' @ userId)
   \<and> (markUserResponded b surveyId userId = Inr b' \<longrightarrow>
        surveys b' = surveys b \<and> responses b' = responses b
        \<and> (\<forall>k. k \<noteq> surveyId \<longrightarrow> tracking b' k = tracking b k)
        \<and> (b' = b
           \<or> tracking b' surveyId
               = Some (or_empty (tracking b surveyId) @ [dedup_digest surveyId userId])
             \<and> journal b' = journal b @ [(TrackingStore, surveyId)]))"
proof (cases "reachable b")
  case True
  then show ?thesis
    by (auto simp: markUserResponded_reachable dedup_digest_def split: if_splits)
next
  case False
  then show ?thesis
    by (simp add: markUserResponded_def dedup_digest_def)
qed

theorem dedup_digest_plain_sha256_witness:
  "dedup_digest ''a1b2c3d4'' ''U024BE7LH'' = Sha256Hex ''a1b2c3d4:U024BE7LH''
   \<and> markUserResponded sample_backend ''a1b2c3d4'' ''U024BE7LH''
       = Inr (sample_backend\<lparr>tracking := [''a1b2c3d4'' \<mapsto> [Sha256Hex ''a1b2c3d4:U024BE7LH'']],
                             journal := [(TrackingStore, ''a1b2c3d4'')]\<rparr>)
   \<and> surveys (sample_backend\<lparr>tracking := [''a1b2c3d4'' \<mapsto> [Sha256Hex ''a1b2c3d4:U024BE7LH'']],
                             journal := [(TrackingStore, ''a1b2c3d4'')]\<rparr>) = surveys sample_backend"
  using dedup_digest_plain_sha256 [of "''a1b2c3d4''" "''U024BE7LH''" sample_backend
      "sample_backend\<lparr>tracking := [''a1b2c3d4'' \<mapsto> [Sha256Hex ''a1b2c3d4:U024BE7LH'']],
                       journal := [(TrackingStore, ''a1b2c3d4'')]\<rparr>"]
  by (simp add: sample_backend_def markUserResponded_reachable dedup_digest_def)

subsection \<open>Counting responses\<close>

lemma addResponse_seq_general:
  assumes "reachable b" and "surveys b sid = Some s"
  shows "\<exists>b'. addResponse_seq b sid as =
            Inr (b', [Suc (length (or_empty (responses b sid)))
                      ..< Suc (length (or_empty (responses b sid)) + length as)])
          \<and> reachable b'
          \<and> or_empty (responses b' sid) = or_empty (responses b sid) @ as
          \<and> surveys b' sid = Some (if as = [] then s
               else s\<lparr>responseCount := length (or_empty (responses b sid)) + length as\<rparr>)"
  using assms
proof (induction as arbitrary: b s)
  case Nil
  then show ?case by simp
next
  case (Cons a as)
  let ?xs = "or_empty (responses b sid)"
  let ?b1 = "b\<lparr>responses := (responses b)(sid \<mapsto> ?xs @ [a]),
                 journal := journal b @ [(ResponsesStore, sid)]\<rparr>"
  let ?b2 = "?b1\<lparr>surveys := (surveys b)(sid \<mapsto> s\<lparr>responseCount := Suc (length ?xs)\<rparr>),
                     journal := journal ?b1 @ [(SurveysStore, sid)]\<rparr>"
  have step: "addResponse b sid a = Inr (?b2, Suc (length ?xs))"
    using Cons.prems by (simp add: addResponse_reachable Let_def)
  have r2: "reachable ?b2" using Cons.prems by simp
  have s2: "surveys ?b2 sid = Some (s\<lparr>responseCount := Suc (length ?xs)\<rparr>)" by simp
  have x2: "or_empty (responses ?b2 sid) = ?xs @ [a]" by simp
  from Cons.IH [OF r2 s2] obtain b' where b':
    "addResponse_seq ?b2 sid as
       = Inr (b', [Suc (length (?xs @ [a])) ..< Suc (length (?xs @ [a]) + length as)])"
    "reachable b'" "or_empty (responses b' sid) = (?xs @ [a]) @ as"
    "surveys b' sid = Some (if as = [] then s\<lparr>responseCount := Suc (length ?xs)\<rparr>
       else s\<lparr>responseCount := Suc (length ?xs),
               responseCount := length (?xs @ [a]) + length as\<rparr>)"
    unfolding x2 by blast
  have "[Suc (length ?xs) ..< Suc (length ?xs + length (a # as))]
      = Suc (length ?xs) # [Suc (length (?xs @ [a])) ..< Suc (length (?xs @ [a]) + length as)]"
    by (simp add: upt_rec)
  with step b' show ?case by (auto simp del: upt_Suc)
qed

text \<open>
  C3. For an existing survey with no stored responses (and, when no call is made, a stored
  count of zero), k sequential \<open>addResponse\<close> calls on a reachable backend all succeed;
  the i-th call returns i, the length of the response sequence after its append;
  afterwards \<open>getResponses\<close> returns the k appended answer objects in order (a sequence
  of length k) and the stored survey is the old one with \<open>responseCount\<close> equal to k.
\<close>

theorem addResponse_counts_k:
  assumes "reachable b"
    and "surveys b surveyId = Some s"
    and "or_empty (responses b surveyId) = []"
    and "as = [] \<longrightarrow> responseCount s = 0"
  shows "\<exists>b'. addResponse_seq b surveyId as = Inr (b', [1 ..< Suc (length as)])
           \<and> (\<exists>rs. getResponses b' surveyId = Inr rs \<and> rs = as \<and> length rs = length as)
           \<and> getSurvey b' surveyId = Inr (Some (s\<lparr>responseCount := length as\<rparr>))"
proof -
  obtain b' where b': "addResponse_seq b surveyId as = Inr (b', [Suc 0 ..< Suc (length as)])"
      "reachable b'" "or_empty (responses b' surveyId) = as"
      "surveys b' surveyId
         = Some (if as = [] then s else s\<lparr>responseCount := length as\<rparr>)"
    using addResponse_seq_general [OF assms(1,2), of as] assms(3) by auto
  have "as = [] \<Longrightarrow> s\<lparr>responseCount := length as\<rparr> = s" using assms(4) by simp
  then have "surveys b' surveyId = Some (s\<lparr>responseCount := length as\<rparr>)"
    using b'(4) by (cases "as = []") simp_all
  then show ?thesis using b' by (auto simp: getResponses_def getSurvey_def)
qed

theorem addResponse_counts_k_witness:
  "\<exists>b'. addResponse_seq sample_backend ''a1b2c3d4''
            [[''q_0'' \<mapsto> AStr ''4''], [''q_0'' \<mapsto> AStr ''5''], Map.empty] = Inr (b', [1, 2, 3])
         \<and> (\<exists>rs. getResponses b' ''a1b2c3d4'' = Inr rs
                 \<and> rs = [[''q_0'' \<mapsto> AStr ''4''], [''q_0'' \<mapsto> AStr ''5''], Map.empty]
                 \<and> length rs = 3)
         \<and> getSurvey b' ''a1b2c3d4''
             = Inr (Some (sample_survey\<lparr>responseCount := 3\<rparr>))"
  using addResponse_counts_k [of sample_backend "''a1b2c3d4''" sample_survey
      "[[''q_0'' \<mapsto> AStr ''4''], [''q_0'' \<mapsto> AStr ''5''], Map.empty]"]
  by (simp add: sample_backend_def upt_rec numeral_2_eq_2 numeral_3_eq_3)

text \<open>
  C10. When the survey store has no document under \<open>surveyId\<close>, \<open>addResponse\<close> on a
  reachable backend succeeds: it stores the old response sequence with \<open>answers\<close>
  appended under \<open>surveyId\<close> and returns its new length; the survey store is unchanged,
  the only write is the one to the response store, and no other key is touched.
\<close>

theorem addResponse_without_survey:
  assumes "reachable b" and "surveys b surveyId = None"
  shows "\<exists>b'. addResponse b surveyId answers
              = Inr (b', Suc (length (or_empty (responses b surveyId))))
           \<and> responses b' surveyId = Some (or_empty (responses b surveyId) @ [answers])
           \<and> surveys b' = surveys b
           \<and> journal b' = journal b @ [(ResponsesStore, surveyId)]
           \<and> tracking b' = tracking b
           \<and> (\<forall>k. k \<noteq> surveyId \<longrightarrow> responses b' k = responses b k)"
  using assms by (simp add: addResponse_reachable Let_def)

theorem addResponse_without_survey_witness:
  "\<exists>b'. addResponse sample_backend ''deadbeef'' [''q_0'' \<mapsto> AStr ''3'']
              = Inr (b', Suc (length (or_empty (responses sample_backend ''deadbeef''))))
           \<and> responses b' ''deadbeef''
               = Some (or_empty (responses sample_backend ''deadbeef'') @ [[''q_0'' \<mapsto> AStr ''3'']])
           \<and> surveys b' = surveys sample_backend
           \<and> journal b' = journal sample_backend @ [(ResponsesStore, ''deadbeef'')]
           \<and> tracking b' = tracking sample_backend
           \<and> (\<forall>k. k \<noteq> ''deadbeef'' \<longrightarrow> responses b' k = responses sample_backend k)"
  using addResponse_without_survey [of sample_backend "''deadbeef''" "[''q_0'' \<mapsto> AStr ''3'']"]
  by (simp add: sample_backend_def)
section \<open>Properties of the CSV export\<close>

text \<open>
  C5. The export is the question labels joined with commas, followed for each response,
  in order, by a newline and that response's fields joined with commas: rows are separated
  by \<open>\n\<close> and nothing follows the last row. A field is: for an array, its elements
  joined with \<open>", "\<close> between double quotes; for a string with a comma or a double quote,
  the string between double quotes with every double quote doubled; for a missing answer
  (and for \<open>null\<close> and \<open>0\<close>) the empty string; otherwise the value unquoted.
\<close>

theorem buildCsvExport_format:
  "buildCsvExport survey rs =
     join '','' (map label (questions survey))
     @ concat (map (\<lambda>r. nl # join '','' (map (\<lambda>i. csv_field (r (qkey i)))
                                            [0 ..< length (questions survey)])) rs)
   \<and> csv_field (Some (AArr xs)) = [dq] @ join '', '' xs @ [dq]
   \<and> (CHR '','' \<in> set s \<or> dq \<in> set s \<longrightarrow>
        csv_field (Some (AStr s)) = [dq] @ concat (map (\<lambda>c. if c = dq then [dq, dq] else [c]) s) @ [dq])
   \<and> (CHR '','' \<notin> set s \<and> dq \<notin> set s \<longrightarrow> csv_field (Some (AStr s)) = s)
   \<and> csv_field None = []
   \<and> csv_field (Some ANull) = []
   \<and> csv_field (Some (ANum n)) = (if n = 0 then [] else show_int n)"
  by (simp add: buildCsvExport_def join_Cons map_enumerate_index [of _ 0, simplified]
        double_quotes_def comp_def)

theorem buildCsvExport_format_witness:
  "(CHR '','' \<in> set (''He said, '' @ [dq] @ ''hi'' @ [dq]) \<or> dq \<in> set (''He said, '' @ [dq] @ ''hi'' @ [dq]))
   \<and> csv_field (Some (AStr (''He said, '' @ [dq] @ ''hi'' @ [dq])))
       = [dq] @ ''He said, '' @ [dq, dq] @ ''hi'' @ [dq, dq] @ [dq]
   \<and> (CHR '','' \<notin> set ''fine'' \<and> dq \<notin> set ''fine'')
   \<and> csv_field (Some (AStr ''fine'')) = ''fine''
   \<and> buildCsvExport
        (sample_survey\<lparr>questions := [\<lparr>label = ''Mood'', qtype = Scale, options = None\<rparr>,
                                       \<lparr>label = ''Events'', qtype = MultiSelect, options = None\<rparr>,
                                       \<lparr>label = ''Other'', qtype = FreeText, options = None\<rparr>]\<rparr>)
        [[''q_0'' \<mapsto> AStr ''4'', ''q_1'' \<mapsto> AArr [''A'', ''B''],
          ''q_2'' \<mapsto> AStr (''He said, '' @ [dq] @ ''hi'' @ [dq])],
         [''q_0'' \<mapsto> ANum 5, ''q_2'' \<mapsto> AStr ''fine'']]
       = ''Mood,Events,Other'' @ [nl]
         @ ''4,'' @ [dq] @ ''A, B'' @ [dq] @ '','' @ [dq] @ ''He said, '' @ [dq, dq] @ ''hi'' @ [dq, dq, dq] @ [nl]
         @ ''5,,fine''"
  using buildCsvExport_format [of
      "sample_survey\<lparr>questions := [\<lparr>label = ''Mood'', qtype = Scale, options = None\<rparr>,
                                       \<lparr>label = ''Events'', qtype = MultiSelect, options = None\<rparr>,
                                       \<lparr>label = ''Other'', qtype = FreeText, options = None\<rparr>]\<rparr>"
      "[[''q_0'' \<mapsto> AStr ''4'', ''q_1'' \<mapsto> AArr [''A'', ''B''],
          ''q_2'' \<mapsto> AStr (''He said, '' @ [dq] @ ''hi'' @ [dq])],
         [''q_0'' \<mapsto> ANum 5, ''q_2'' \<mapsto> AStr ''fine'']]"
      "[''A'', ''B'']" "''He said, '' @ [dq] @ ''hi'' @ [dq]" 5]
    buildCsvExport_format [of sample_survey "[]" "[]" "''fine''" 0]
  by (simp add: dq_def qkey_def show_nat.simps show_int_def upt_rec)

section \<open>Properties of the results message\<close>

subsection \<open>Free text in a shared message\<close>

lemma scale_section_answers:
  "map (\<lambda>r. r key) rs = map (\<lambda>r. r key) rs' \<Longrightarrow> scale_section q rs key = scale_section q rs' key"
proof -
  assume "map (\<lambda>r. r key) rs = map (\<lambda>r. r key) rs'"
  then have "map parseFloat (map (\<lambda>r. r key) rs) = map parseFloat (map (\<lambda>r. r key) rs')"
    by simp
  then have "scale_values rs key = scale_values rs' key"
    by (simp add: scale_values_def comp_def)
  then show ?thesis by (simp add: scale_section_def)
qed

lemma multi_section_answers:
  assumes "map (\<lambda>r. r key) rs = map (\<lambda>r. r key) rs'"
  shows "multi_section q rs key = multi_section q rs' key"
proof -
  have "map selections_of (map (\<lambda>r. r key) rs) = map selections_of (map (\<lambda>r. r key) rs')"
    using assms by simp
  then have "multi_sorted rs key = multi_sorted rs' key"
    by (simp add: multi_sorted_def allSelections_def comp_def)
  moreover have "length rs = length rs'"
    using assms by (metis length_map)
  ultimately show ?thesis by (simp add: multi_section_def)
qed

lemma free_text_section_share:
  "free_text_section survey q rs False True key =
     ''*'' @ label q @ ''*'' @ [nl] @ ''_''
     @ show_nat (length (filter truthy (map (\<lambda>r. r key) rs)))
     @ '' free-text responses (visible to survey creator only)_''"
  by (simp add: free_text_section_def free_texts_def)

text \<open>
  C1. Rendered with \<open>isAdmin = false\<close> and \<open>isShare = true\<close>, the message does not depend
  on what the free-text answers say: two response lists of the same length that agree on
  the answers to every question that is not free-text, and have the same number of
  non-empty answers to every free-text question, give the same blocks (or the same
  error), whatever the \<open>shareFreetext\<close> setting. The block of a free-text question
  shows its label and that number only.
\<close>

theorem share_never_shows_free_text:
  assumes "length rs = length rs'"
    and "\<forall>i < length (questions survey).
           if qtype (questions survey ! i) = FreeText
           then length (filter truthy (map (\<lambda>r. r (qkey i)) rs))
                = length (filter truthy (map (\<lambda>r. r (qkey i)) rs'))
           else map (\<lambda>r. r (qkey i)) rs = map (\<lambda>r. r (qkey i)) rs'"
  shows "buildResultsBlocks survey rs False True = buildResultsBlocks survey rs' False True
       \<and> (\<forall>i < length (questions survey). qtype (questions survey ! i) = FreeText \<longrightarrow>
            question_blocks survey rs False True (i, questions survey ! i)
            = Inr [Section (''*'' @ label (questions survey ! i) @ ''*'' @ [nl] @ ''_''
                     @ show_nat (length (filter truthy (map (\<lambda>r. r (qkey i)) rs)))
                     @ '' free-text responses (visible to survey creator only)_''), Divider])"
proof -
  have each: "question_blocks survey rs False True iq = question_blocks survey rs' False True iq"
    if "iq \<in> set (enumerate 0 (questions survey))" for iq
  proof -
    obtain i q where iq: "iq = (i, q)" by (cases iq)
    with that have i: "i < length (questions survey)" and q: "q = questions survey ! i"
      by (simp_all add: in_set_enumerate_eq)
    show ?thesis
    proof (cases "qtype q")
      case Scale
      then have "map (\<lambda>r. r (qkey i)) rs = map (\<lambda>r. r (qkey i)) rs'"
        using assms(2) i q by auto
      then show ?thesis
        using Scale iq by (simp add: question_blocks_def scale_section_answers [of "qkey i" rs rs'])
    next
      case MultiSelect
      then have "map (\<lambda>r. r (qkey i)) rs = map (\<lambda>r. r (qkey i)) rs'"
        using assms(2) i q by auto
      then show ?thesis
        using MultiSelect iq by (simp add: question_blocks_def multi_section_answers [of "qkey i" rs rs'])
    next
      case FreeText
      then have "length (filter truthy (map (\<lambda>r. r (qkey i)) rs))
                = length (filter truthy (map (\<lambda>r. r (qkey i)) rs'))"
        using assms(2) i q by auto
      then show ?thesis
        using FreeText iq by (simp add: question_blocks_def free_text_section_share)
    qed
  qed
  have maps: "map (question_blocks survey rs False True) (enumerate 0 (questions survey))
      = map (question_blocks survey rs' False True) (enumerate 0 (questions survey))"
    using each by (simp cong: map_cong)
  have hdr: "results_header survey rs = results_header survey rs'"
    using assms(1) by (simp add: results_header_def)
  have "buildResultsBlocks survey rs False True = buildResultsBlocks survey rs' False True"
    by (simp only: buildResultsBlocks_def maps hdr assms(1))
  moreover have "\<forall>i < length (questions survey). qtype (questions survey ! i) = FreeText \<longrightarrow>
            question_blocks survey rs False True (i, questions survey ! i)
            = Inr [Section (''*'' @ label (questions survey ! i) @ ''*'' @ [nl] @ ''_''
                     @ show_nat (length (filter truthy (map (\<lambda>r. r (qkey i)) rs)))
                     @ '' free-text responses (visible to survey creator only)_''), Divider]"
    by (simp add: question_blocks_def free_text_section_share)
  ultimately show ?thesis by blast
qed

theorem share_never_shows_free_text_witness:
  "length [[''q_0'' \<mapsto> AStr ''my manager is unfair'']] = length [[''q_0'' \<mapsto> AStr ''all good'']]
   \<and> map qtype (questions share_survey) = [FreeText]
   \<and> length (filter truthy (map (\<lambda>r. r (qkey 0)) [[''q_0'' \<mapsto> AStr ''my manager is unfair'']]))
       = length (filter truthy (map (\<lambda>r. r (qkey 0)) [[''q_0'' \<mapsto> AStr ''all good'']]))
   \<and> shareFreetext (the (settings share_survey))
   \<and> buildResultsBlocks share_survey [[''q_0'' \<mapsto> AStr ''my manager is unfair'']] False True
       = buildResultsBlocks share_survey [[''q_0'' \<mapsto> AStr ''all good'']] False True
   \<and> buildResultsBlocks share_survey [[''q_0'' \<mapsto> AStr ''my manager is unfair'']] False True
       = Inr [Section ('':bar_chart: *Results: Team pulse*'' @ [nl] @ ''1 response '' @ middle_dot
                       @ '' Status: open''),
              Divider,
              Section (''*Any other feedback?*'' @ [nl]
                       @ ''_1 free-text responses (visible to survey creator only)_''),
              Divider]"
  using share_never_shows_free_text [of "[[''q_0'' \<mapsto> AStr ''my manager is unfair'']]"
      "[[''q_0'' \<mapsto> AStr ''all good'']]" share_survey]
  by (simp add: share_survey_def sample_survey_def buildResultsBlocks_def results_header_def
        question_blocks_def free_text_section_share qkey_def show_nat.simps)

section \<open>Properties of parseQuestions\<close>

lemma lower_q: "lower c = CHR ''q'' \<longleftrightarrow> c = CHR ''Q'' \<or> c = CHR ''q''"
  by (auto simp: lower_def split: option.splits if_splits)

lemma takeWhile_digits_prefix:
  assumes "list_all is_digit ds" "all_space ws"
  shows "takeWhile is_digit (ds @ ws @ CHR '':'' # rest) = ds"
    and "dropWhile is_digit (ds @ ws @ CHR '':'' # rest) = ws @ CHR '':'' # rest"
proof -
  obtain c cs where c: "ws @ CHR '':'' # rest = c # cs" "\<not> is_digit c"
  proof (cases ws)
    case Nil
    then show ?thesis using that [of "CHR '':''" rest] by (simp add: is_digit_def)
  next
    case (Cons a as)
    then show ?thesis using that [of a "as @ CHR '':'' # rest"] all_space_hd(1) [OF assms(2)] by simp
  qed
  show "takeWhile is_digit (ds @ ws @ CHR '':'' # rest) = ds"
    and "dropWhile is_digit (ds @ ws @ CHR '':'' # rest) = ws @ CHR '':'' # rest"
    using assms(1) c by (simp_all add: list_all_iff takeWhile_append2 dropWhile_append2)
qed

lemma colon_not_space: "\<not> starts_with_space (CHR '':'' # rest)"
  by (simp add: starts_with_space_width code_width_def white_space_def)

lemma match_option_line_form:
  assumes "option_line_form n body line"
  shows "match_option_line line = Some (n, body)"
proof -
  from assms obtain q ds ws1 ws2 where
    line: "line = q # ds @ ws1 @ '':'' @ ws2 @ body"
    and q: "q = CHR ''Q'' \<or> q = CHR ''q''"
    and ds: "ds \<noteq> []" "list_all is_digit ds" "digits_val ds = n"
    and ws: "all_space ws1" "all_space ws2"
    and body: "body \<noteq> []" "\<not> starts_with_space body" "\<not> has_line_terminator body"
    unfolding option_line_form_def by blast
  have t: "takeWhile is_digit (ds @ ws1 @ CHR '':'' # ws2 @ body) = ds"
    and d: "dropWhile is_digit (ds @ ws1 @ CHR '':'' # ws2 @ body) = ws1 @ CHR '':'' # ws2 @ body"
    using takeWhile_digits_prefix [OF ds(2) ws(1)] by simp_all
  have s1: "skip_space (ws1 @ CHR '':'' # ws2 @ body) = CHR '':'' # ws2 @ body"
    using ws(1) colon_not_space by (rule skip_space_prefix)
  have s2: "skip_space (ws2 @ body) = body"
    using ws(2) body(2) by (rule skip_space_prefix)
  show ?thesis
    using q ds body(1,3)
    by (simp add: match_option_line_def line lower_q t d s1 s2 Let_def)
qed

lemma form_of_match_option_line:
  assumes "match_option_line line = Some (n, body)" and "\<not> ends_with_space line"
  shows "option_line_form n body line"
proof -
  from assms(1) obtain c r where cr: "line = c # r"
    by (cases line) (simp_all add: match_option_line_def)
  let ?ds = "takeWhile is_digit r" and ?r1 = "dropWhile is_digit r"
  from assms(1) cr have q: "lower c = CHR ''q''" and ds: "?ds \<noteq> []"
    by (auto simp: match_option_line_def split: if_splits)
  from assms(1) cr q ds obtain r2 where r2: "skip_space ?r1 = CHR '':'' # r2"
    by (auto simp: match_option_line_def split: list.splits if_splits)
  from skip_space_split [of ?r1] obtain ws1 where
    ws1: "?r1 = ws1 @ skip_space ?r1" "all_space ws1" by blast
  from skip_space_split [of r2] obtain ws2 where
    ws2: "r2 = ws2 @ skip_space r2" "all_space ws2" by blast
  let ?b = "skip_space r2"
  have r: "r = ?ds @ ws1 @ '':'' @ ws2 @ ?b"
  proof -
    have "r = ?ds @ ?r1" by simp
    also have "?r1 = ws1 @ '':'' @ r2" using ws1(1) r2 by simp
    also have "r2 = ws2 @ ?b" using ws2(1) .
    finally show ?thesis by simp
  qed
  have bne: "?b \<noteq> []"
  proof
    assume e: "?b = []"
    then have sp: "all_space r2" by (simp add: all_space_skip)
    show False
    proof (cases "r2 = []")
      case True
      with assms(1) cr q ds r2 show False
        by (simp add: match_option_line_def Let_def last_space_def)
    next
      case False
      have "ends_with_space r2" using sp False by (rule all_space_suffix)
      then have "ends_with_space ((c # ?ds @ ws1 @ '':'') @ r2)"
        by (rule ends_with_space_append)
      moreover have "line = (c # ?ds @ ws1 @ '':'') @ r2"
        using cr r e ws2(1) by simp
      ultimately have "ends_with_space line" by simp
      then show False using assms(2) by simp
    qed
  qed
  from assms(1) cr q ds r2 bne have res: "n = digits_val ?ds" "body = ?b"
      "\<not> has_line_terminator ?b"
    by (auto simp: match_option_line_def Let_def split: if_splits)
  have "list_all is_digit ?ds"
    by (simp add: list_all_iff) (meson set_takeWhileD)
  moreover have "line = c # ?ds @ ws1 @ '':'' @ ws2 @ body" using cr r res(2) by simp
  ultimately have "line = c # ?ds @ ws1 @ '':'' @ ws2 @ body
      \<and> (c = CHR ''Q'' \<or> c = CHR ''q'')
      \<and> ?ds \<noteq> [] \<and> list_all is_digit ?ds \<and> digits_val ?ds = n
      \<and> all_space ws1 \<and> all_space ws2
      \<and> body \<noteq> [] \<and> \<not> starts_with_space body \<and> \<not> has_line_terminator body"
    using q ds bne res ws1(2) ws2(2) by (simp add: lower_q)
  then show ?thesis
    unfolding option_line_form_def by blast
qed

lemma nonblank_lines_trimmed: "l \<in> set (nonblank_lines s) \<Longrightarrow> \<not> ends_with_space l"
  using trim_not_ends_with_space by (auto simp: nonblank_lines_def)

lemma trim_Nil [simp]: "trim [] = []"
  by (simp add: trim_def skip_space_def)

text \<open>The step of the fold that builds \<open>optionsMap\<close>, and the last line that matters.\<close>

lemma parse_options_fold:
  "parse_options rawOptions =
     foldl (\<lambda>optionsMap line.
              case match_option_line line of
                None \<Rightarrow> optionsMap
              | Some (qNum, body) \<Rightarrow> optionsMap(qNum \<mapsto> map trim (split_on CHR '','' body)))
       Map.empty (nonblank_lines rawOptions)"
  by (simp add: parse_options_def nonblank_lines_def)

lemma options_fold_none:
  assumes "\<forall>l \<in> set ls. \<forall>body. match_option_line l \<noteq> Some (n, body)"
  shows "foldl (\<lambda>optionsMap line.
              case match_option_line line of
                None \<Rightarrow> optionsMap
              | Some (qNum, body) \<Rightarrow> optionsMap(qNum \<mapsto> map trim (split_on CHR '','' body)))
           m ls n = m n"
  using assms
proof (induction ls arbitrary: m)
  case Nil
  then show ?case by simp
next
  case (Cons l ls)
  then show ?case by (auto split: option.splits)
qed

lemma options_fold_last:
  assumes "match_option_line l = Some (n, body)"
    and "\<forall>l' \<in> set post. \<forall>b'. match_option_line l' \<noteq> Some (n, b')"
  shows "foldl (\<lambda>optionsMap line.
              case match_option_line line of
                None \<Rightarrow> optionsMap
              | Some (qNum, body) \<Rightarrow> optionsMap(qNum \<mapsto> map trim (split_on CHR '','' body)))
           m (pre @ l # post) n = Some (map trim (split_on CHR '','' body))"
  using assms by (simp add: options_fold_none)

lemma parseQuestions_nth:
  assumes "i < length (parseQuestions rawQuestions rawOptions)"
  shows "parseQuestions rawQuestions rawOptions ! i
         = parse_line (parse_options rawOptions) (i, nonblank_lines rawQuestions ! i)"
  using assms by (simp add: parseQuestions_def nth_enumerate_eq)

lemma parse_line_options:
  assumes "qtype (parse_line optionsMap (i, line)) = MultiSelect"
  shows "options (parse_line optionsMap (i, line))
         = Some (case optionsMap (i + 1) of None \<Rightarrow> default_options | Some opts \<Rightarrow> opts)"
  using assms by (simp add: parse_line_def split: if_splits)

lemmas string_eval = nonblank_lines_def trim_def skip_space_def skip_code_Cons code_width_def
  white_space_def line_terminators_def last_space_def all_space_skip starts_with_space_width
  nl_def nbsp_def is_digit_def digits_val_def digit_val_def lower_def

lemma sample_option_lines:
  "nonblank_lines sample_options_text
   = [''Q2: x'', ''q2 :'' @ nbsp @ ''Social events,'' @ nbsp @ ''Mentorship'']"
  by (simp add: sample_options_text_def string_eval)

lemma sample_option_matches:
  "match_option_line ''Q2: x'' = Some (2, ''x'')"
  "match_option_line (''q2 :'' @ nbsp @ ''Social events,'' @ nbsp @ ''Mentorship'')
   = Some (2, ''Social events,'' @ nbsp @ ''Mentorship'')"
  by (simp_all add: match_option_line_def string_eval)

lemma sample_options_trimmed:
  "map trim (split_on CHR '','' (''Social events,'' @ nbsp @ ''Mentorship''))
   = [''Social events'', ''Mentorship'']"
  by (simp add: string_eval)

text \<open>A line separator (U+2028) in the option text: the dot does not match it.\<close>

lemma line_separator_rejected:
  "match_option_line (''Q1: a'' @ [CHR 0xE2, CHR 0x80, CHR 0xA8] @ ''b'') = None"
  by (simp add: match_option_line_def string_eval)

lemma sample_options_map: "parse_options sample_options_text 2 = Some [''Social events'', ''Mentorship'']"
      "parse_options sample_options_text 3 = None"
    by (simp_all add: parse_options_fold sample_option_lines nbsp_def
          sample_option_matches [unfolded nbsp_def, simplified]
          sample_options_trimmed [unfolded nbsp_def, simplified])

lemma sample_question_lines: "nonblank_lines sample_questions_text
      = [''Mood'', ''Events? (multi-select)'', ''Days? (Multi-Select)'']"
    by (simp add: sample_questions_text_def string_eval)

lemma sample_kinds: "\<not> test_ci ''(multi-select)'' ''Mood''" "\<not> test_ci ''(free-text)'' ''Mood''"
      "test_ci ''(multi-select)'' ''Events? (multi-select)''"
      "test_ci ''(multi-select)'' ''Days? (Multi-Select)''"
    by (simp_all add: lower_def)

lemma sample_labels: "trim ''Mood'' = ''Mood''" "trim ''Events?'' = ''Events?''" "trim ''Days?'' = ''Days?''"
      "strip_marker ''(multi-select)'' ''Events? (multi-select)'' = ''Events?''"
      "strip_marker ''(multi-select)'' ''Days? (Multi-Select)'' = ''Days?''"
    by (simp_all add: string_eval)

lemma sample_parse:
  "parseQuestions sample_questions_text sample_options_text =
     [\<lparr>label = ''Mood'', qtype = Scale, options = None\<rparr>,
      \<lparr>label = ''Events?'', qtype = MultiSelect, options = Some [''Social events'', ''Mentorship'']\<rparr>,
      \<lparr>label = ''Days?'', qtype = MultiSelect, options = Some [''Option A'', ''Option B'', ''Option C'']\<rparr>]"
proof -
  have three: "(2::nat) + 1 = 3" by simp
  have l0: "parse_line (parse_options sample_options_text) (0, ''Mood'')
      = \<lparr>label = ''Mood'', qtype = Scale, options = None\<rparr>"
    unfolding parse_line_def Let_def prod.case by (simp only: sample_kinds sample_labels) simp
  have l1: "parse_line (parse_options sample_options_text) (1, ''Events? (multi-select)'')
      = \<lparr>label = ''Events?'', qtype = MultiSelect, options = Some [''Social events'', ''Mentorship'']\<rparr>"
    unfolding parse_line_def Let_def prod.case
    by (simp only: sample_kinds sample_labels one_add_one sample_options_map) simp
  have l2: "parse_line (parse_options sample_options_text) (2, ''Days? (Multi-Select)'')
      = \<lparr>label = ''Days?'', qtype = MultiSelect, options = Some [''Option A'', ''Option B'', ''Option C'']\<rparr>"
    unfolding parse_line_def Let_def prod.case
    by (simp only: sample_kinds sample_labels three sample_options_map) (simp add: default_options_def)
  have "enumerate 0 [''Mood'', ''Events? (multi-select)'', ''Days? (Multi-Select)'']
      = [(0, ''Mood''), (1, ''Events? (multi-select)''), (2, ''Days? (Multi-Select)'')]"
    by simp
  then show ?thesis
    unfolding parseQuestions_def Let_def sample_question_lines by (simp only: list.map l0 l1 l2)
qed

text \<open>
  C8. Let the lines of \<open>rawOptions\<close> be its non-blank lines, trimmed. A line of the form
  \<open>Q<N>: opt1, opt2, ...\<close> (Q in either case) maps \<open>N\<close> to the option texts between the
  commas, trimmed and in order, and the last such line for a number wins: the multi-select
  question at 1-based position \<open>n\<close> has exactly the options of the last line of that form
  for \<open>n\<close>, and exactly the three placeholders when no line has that form for \<open>n\<close>.
\<close>

theorem parseQuestions_multi_select_options:
  assumes "i < length (parseQuestions rawQuestions rawOptions)"
    and "qtype (parseQuestions rawQuestions rawOptions ! i) = MultiSelect"
  shows "((\<forall>l \<in> set (nonblank_lines rawOptions). \<forall>body. \<not> option_line_form (i + 1) body l) \<longrightarrow>
            options (parseQuestions rawQuestions rawOptions ! i) = Some default_options)
       \<and> (\<forall>pre l post body.
             nonblank_lines rawOptions = pre @ l # post
             \<and> option_line_form (i + 1) body l
             \<and> (\<forall>l' \<in> set post. \<forall>b'. \<not> option_line_form (i + 1) b' l') \<longrightarrow>
             options (parseQuestions rawQuestions rawOptions ! i)
             = Some (map trim (split_on CHR '','' body)))"
proof -
  let ?q = "parseQuestions rawQuestions rawOptions ! i"
  let ?ls = "nonblank_lines rawOptions"
  have opts: "options ?q = Some (case parse_options rawOptions (i + 1) of
                                    None \<Rightarrow> default_options | Some opts \<Rightarrow> opts)"
    using assms by (simp add: parseQuestions_nth parse_line_options)
  have nomatch: "\<forall>b'. match_option_line l \<noteq> Some (i + 1, b')"
    if "l \<in> set ?ls" "\<forall>b'. \<not> option_line_form (i + 1) b' l" for l
    using that form_of_match_option_line [of l "i + 1"] nonblank_lines_trimmed [of l rawOptions]
    by blast
  have first: "options ?q = Some default_options"
    if "\<forall>l \<in> set ?ls. \<forall>body. \<not> option_line_form (i + 1) body l"
  proof -
    have "\<forall>l \<in> set ?ls. \<forall>body. match_option_line l \<noteq> Some (i + 1, body)"
      using that nomatch by blast
    then have "parse_options rawOptions (i + 1) = None"
      by (simp only: parse_options_fold options_fold_none) 
    then show ?thesis using opts by simp
  qed
  have second: "options ?q = Some (map trim (split_on CHR '','' body))"
    if "?ls = pre @ l # post" "option_line_form (i + 1) body l"
       "\<forall>l' \<in> set post. \<forall>b'. \<not> option_line_form (i + 1) b' l'" for pre l post body
  proof -
    have m: "match_option_line l = Some (i + 1, body)"
      using that(2) by (rule match_option_line_form)
    have "\<forall>l' \<in> set post. \<forall>b'. match_option_line l' \<noteq> Some (i + 1, b')"
      using that(1,3) nomatch by simp
    with m have "parse_options rawOptions (i + 1) = Some (map trim (split_on CHR '','' body))"
      by (simp only: parse_options_fold that(1) options_fold_last)
    then show ?thesis using opts by simp
  qed
  from first second show ?thesis by blast
qed

theorem parseQuestions_multi_select_options_witness:
  "1 < length (parseQuestions sample_questions_text sample_options_text)
   \<and> qtype (parseQuestions sample_questions_text sample_options_text ! 1) = MultiSelect
   \<and> nonblank_lines sample_options_text
       = [''Q2: x''] @ (''q2 :'' @ nbsp @ ''Social events,'' @ nbsp @ ''Mentorship'') # []
   \<and> option_line_form (1 + 1) (''Social events,'' @ nbsp @ ''Mentorship'')
         (''q2 :'' @ nbsp @ ''Social events,'' @ nbsp @ ''Mentorship'')
   \<and> options (parseQuestions sample_questions_text sample_options_text ! 1)
       = Some [''Social events'', ''Mentorship'']
   \<and> 2 < length (parseQuestions sample_questions_text sample_options_text)
   \<and> qtype (parseQuestions sample_questions_text sample_options_text ! 2) = MultiSelect
   \<and> \<not> (\<exists>l \<in> set (nonblank_lines sample_options_text). \<exists>body. option_line_form (2 + 1) body l)
   \<and> options (parseQuestions sample_questions_text sample_options_text ! 2)
       = Some [''Option A'', ''Option B'', ''Option C'']"
proof -
  have form: "option_line_form (1 + 1) (''Social events,'' @ nbsp @ ''Mentorship'')
         (''q2 :'' @ nbsp @ ''Social events,'' @ nbsp @ ''Mentorship'')"
    unfolding option_line_form_def
    by (rule exI [of _ "CHR ''q''"], rule exI [of _ "''2''"], rule exI [of _ "'' ''"],
        rule exI [of _ nbsp]) (simp add: string_eval)
  have none: "\<forall>l \<in> set (nonblank_lines sample_options_text). \<forall>body. \<not> option_line_form (2 + 1) body l"
    using sample_option_matches by (auto simp: sample_option_lines dest: match_option_line_form)
  have len: "1 < length (parseQuestions sample_questions_text sample_options_text)"
      "2 < length (parseQuestions sample_questions_text sample_options_text)"
    and ty: "qtype (parseQuestions sample_questions_text sample_options_text ! 1) = MultiSelect"
      "qtype (parseQuestions sample_questions_text sample_options_text ! 2) = MultiSelect"
    by (simp_all add: sample_parse)
  have lines: "nonblank_lines sample_options_text
       = [''Q2: x''] @ (''q2 :'' @ nbsp @ ''Social events,'' @ nbsp @ ''Mentorship'') # []"
    by (simp add: sample_option_lines)
  have "options (parseQuestions sample_questions_text sample_options_text ! 1)
       = Some (map trim (split_on CHR '','' (''Social events,'' @ nbsp @ ''Mentorship'')))"
    by (rule parseQuestions_multi_select_options [OF len(1) ty(1), THEN conjunct2, rule_format,
          of "[''Q2: x'']" "''q2 :'' @ nbsp @ ''Social events,'' @ nbsp @ ''Mentorship''" "[]"])
       (use lines form in simp)
  then have first: "options (parseQuestions sample_questions_text sample_options_text ! 1)
       = Some [''Social events'', ''Mentorship'']"
    by (simp only: sample_options_trimmed)
  have "options (parseQuestions sample_questions_text sample_options_text ! 2)
       = Some default_options"
    by (rule parseQuestions_multi_select_options [OF len(2) ty(2), THEN conjunct1, rule_format])
       (use none in simp)
  then have second: "options (parseQuestions sample_questions_text sample_options_text ! 2)
       = Some [''Option A'', ''Option B'', ''Option C'']"
    by (simp add: default_options_def)
  from none have none': "\<not> (\<exists>l \<in> set (nonblank_lines sample_options_text).
      \<exists>body. option_line_form (2 + 1) body l)"
    by blast
  show ?thesis
    using form none' len ty lines first second by (intro conjI) assumption+
qed

section \<open>Scale questions: what is aggregated\<close>



section \<open>Multi-select questions: what is aggregated\<close>

text \<open>
  Claim C7, refuted as stated. Ties are not always in first-seen order: for one response
  selecting the options 2 and 1, in this order, option 1 is listed before option 2. The
  example does not give the numbers of the claim: with two responses selecting A and B and one
  selecting A, the counts are 3 and 2 (not 2 and 1); with one response selecting A and B and
  one selecting A, the counts are 2 and 1 and the percentages of the two respondents are 100
  and 50 (not 67 and 33). A response that holds an option twice counts it twice, and with
  200 percent of one respondent the bar raises RangeError. An option named \<open>constructor\<close> is
  shown with \<open>NaN%\<close> and a text for its count.
\<close>

theorem multi_select_tie_order_counterexample:
  "allSelections [[''q_0'' \<mapsto> AArr [''2'', ''1'']]] ''q_0'' = [''2'', ''1'']
   \<and> first_seen [''2'', ''1''] = [''2'', ''1'']
   \<and> multi_sorted [[''q_0'' \<mapsto> AArr [''2'', ''1'']]] ''q_0'' = [(''1'', Count 1), (''2'', Count 1)]
   \<and> multi_sorted choice_responses ''q_0'' = [(''A'', Count 3), (''B'', Count 2)]
   \<and> multi_sorted [[''q_0'' \<mapsto> AArr [''A'', ''B'']], [''q_0'' \<mapsto> AArr [''A'']]] ''q_0''
       = [(''A'', Count 2), (''B'', Count 1)]
   \<and> percent (Count 2) 2 = Fin 100 \<and> percent (Count 1) 2 = Fin 50
   \<and> multi_section events_question [[''q_0'' \<mapsto> AArr [''A'', ''A'']]] ''q_0'' = Inl RangeError
   \<and> multi_section events_question [[''q_0'' \<mapsto> AArr [''constructor'']]] ''q_0''
       = Inr (''*Events*'' @ [nl]
              @ ''constructor:  NaN% (function Object() { [native code] }1)'')"
proof -
  have p1: "percent (Count 2) 2 = Fin 100"
    by (simp add: percent_def fl_numeral)
  have p2: "percent (Count 1) 2 = Fin 50"
    using fl_dyadic [of 1 1] by (simp add: percent_def fl_numeral)
  have sorted: "multi_sorted [[''q_0'' \<mapsto> AArr [''2'', ''1'']]] ''q_0'' = [(''1'', Count 1), (''2'', Count 1)]"
      "multi_sorted choice_responses ''q_0'' = [(''A'', Count 3), (''B'', Count 2)]"
      "multi_sorted [[''q_0'' \<mapsto> AArr [''A'', ''B'']], [''q_0'' \<mapsto> AArr [''A'']]] ''q_0''
       = [(''A'', Count 2), (''B'', Count 1)]"
      "multi_sorted [[''q_0'' \<mapsto> AArr [''A'', ''A'']]] ''q_0'' = [(''A'', Count 2)]"
    by (simp_all add: allSelections_def multi_sorted_def tally_def inherited_def
          object_entries_def sort_by_count_def compare_entries_def is_array_index_def
          is_digit_def digits_val_def digit_val_def choice_responses_def)
  have twice: "option_row 1 (''A'', Count 2) = Inl RangeError"
    by (simp add: option_row_def percent_def fl_numeral fl_neg_numeral)
  have dup: "multi_section events_question [[''q_0'' \<mapsto> AArr [''A'', ''A'']]] ''q_0''
      = Inl RangeError"
    using twice by (simp add: multi_section_def sorted(4))
  have "inherited ''constructor'' = Some ''function Object() { [native code] }''"
    by (simp add: inherited_def)
  from inherited_row [OF this, of events_question "''q_0''"]
  have ctor: "multi_section events_question [[''q_0'' \<mapsto> AArr [''constructor'']]] ''q_0''
       = Inr (''*Events*'' @ [nl]
              @ ''constructor:  NaN% (function Object() { [native code] }1)'')"
    by (simp add: events_question_def)
  show ?thesis
    using p1 p2 sorted(1,2,3) dup ctor
    by (simp add: allSelections_def first_seen_def)
qed

text \<open>
  Claim C7, amended. When no selected option is named like a property that a plain object
  inherits from \<open>Object.prototype\<close>: the sorted entries are the distinct options, each once,
  with the number of times it occurs among all selections of all responses; they are the
  entries of the tally as \<open>Object.entries\<close> lists them, stably sorted by descending count, so
  options with the same count keep that order, which is first-seen order when no option is an
  array-index numeral but lists such numerals first in ascending numeric order; and when
  moreover every respondent selects an option at most once (fewer than \<open>2^32\<close> responses),
  every row shows the count and a whole percentage within one half of
  \<open>100 * count / number of responses\<close>, with a bar of ten segments. An option named like an
  inherited property other than \<open>__proto__\<close>, selected once, gets the text of that property
  followed by 1 in place of its count and \<open>NaN%\<close>; \<open>__proto__\<close> never enters the tally.
  With two responses selecting A and B and one selecting A, option A has count 3 and 100
  percent, option B count 2 and 67 percent, and A comes first.
\<close>

theorem multi_select_aggregation:
  "((\<forall>opt \<in> set (allSelections rs key). inherited opt = None) \<longrightarrow>
      (\<exists>cs. multi_sorted rs key = map (\<lambda>(opt, c). (opt, Count c)) cs
         \<and> cs = sort_key (\<lambda>(opt, c). - int c)
                  (object_entries (map (\<lambda>k. (k, count_list (allSelections rs key) k))
                                     (first_seen (allSelections rs key))))
         \<and> set cs = (\<lambda>k. (k, count_list (allSelections rs key) k)) ` set (allSelections rs key)
         \<and> distinct (map fst cs)
         \<and> sorted_wrt (\<lambda>a b. snd b \<le> snd a) cs
         \<and> (\<forall>c. filter (\<lambda>e. snd e = c) cs
                 = filter (\<lambda>e. snd e = c)
                     (object_entries (map (\<lambda>k. (k, count_list (allSelections rs key) k))
                                        (first_seen (allSelections rs key)))))
         \<and> ((\<forall>opt \<in> set (allSelections rs key). \<not> is_array_index opt) \<longrightarrow>
             (\<forall>c. filter (\<lambda>e. snd e = c) cs
                 = filter (\<lambda>e. snd e = c)
                     (map (\<lambda>k. (k, count_list (allSelections rs key) k))
                        (first_seen (allSelections rs key)))))
         \<and> ((\<forall>r \<in> set rs. distinct (selections_of (r key))) \<and> length rs < 2 ^ 32 \<longrightarrow>
             (\<exists>ps. length ps = length cs
                \<and> list_all2 (\<lambda>(opt, c) p. 0 \<le> p \<and> p \<le> 100
                      \<and> \<bar>(of_int p :: rat) - 100 * of_nat c / of_nat (length rs)\<bar> \<le> 1 / 2)
                    cs ps
                \<and> multi_section q rs key
                    = Inr (''*'' @ label q @ ''*'' @ [nl]
                           @ join [nl]
                               (map (\<lambda>((opt, c), p).
                                       opt @ '': ''
                                       @ concat (replicate (nat ((p + 5) div 10)) full_block)
                                       @ concat (replicate (10 - nat ((p + 5) div 10)) light_shade)
                                       @ '' '' @ show_int p @ ''% ('' @ show_nat c @ '')'')
                                  (zip cs ps)))))))
   \<and> (\<forall>opt t. inherited opt = Some t \<and> opt \<noteq> ''__proto__'' \<longrightarrow>
          multi_section q [[key \<mapsto> AArr [opt]]] key
          = Inr (''*'' @ label q @ ''*'' @ [nl] @ opt @ '':  NaN% ('' @ t @ ''1)''))
   \<and> multi_sorted [[key \<mapsto> AArr [''__proto__'']]] key = []
   \<and> multi_sorted choice_responses ''q_0'' = [(''A'', Count 3), (''B'', Count 2)]
   \<and> multi_section events_question choice_responses ''q_0''
       = Inr (''*Events*'' @ [nl]
              @ ''A: '' @ concat (replicate 10 full_block) @ '' 100% (3)'' @ [nl]
              @ ''B: '' @ concat (replicate 7 full_block) @ concat (replicate 3 light_shade)
              @ '' 67% (2)'')"
proof -
  define sels where "sels = allSelections rs key"
  define props where "props = map (\<lambda>k. (k, count_list sels k)) (first_seen sels)"
  define cs where "cs = sort_key (\<lambda>(opt, c). - int c) (object_entries props)"
  define P :: "string \<times> nat \<Rightarrow> int \<Rightarrow> bool"
    where "P = (\<lambda>(opt, c) p. 0 \<le> p \<and> p \<le> 100
                \<and> \<bar>(of_int p :: rat) - 100 * of_nat c / of_nat (length rs)\<bar> \<le> 1 / 2)"
  define G :: "(string \<times> nat) \<times> int \<Rightarrow> string"
    where "G = (\<lambda>((opt, c), p).
                  opt @ '': '' @ concat (replicate (nat ((p + 5) div 10)) full_block)
                  @ concat (replicate (10 - nat ((p + 5) div 10)) light_shade)
                  @ '' '' @ show_int p @ ''% ('' @ show_nat c @ '')'')"
  have entries: "set cs = (\<lambda>k. (k, count_list sels k)) ` set sels"
    unfolding cs_def props_def by (simp add: object_entries_set)
  have dist: "distinct (map fst cs)"
    unfolding cs_def props_def by (rule sorted_entries(2)) simp
  have desc: "sorted_wrt (\<lambda>a b. snd b \<le> snd a) cs"
    unfolding cs_def by (rule by_count_sorted)
  have ties: "\<forall>c. filter (\<lambda>e. snd e = c) cs = filter (\<lambda>e. snd e = c) (object_entries props)"
    unfolding cs_def by (simp add: by_count_stable)
  have first: "(\<forall>opt \<in> set sels. \<not> is_array_index opt) \<longrightarrow>
      (\<forall>c. filter (\<lambda>e. snd e = c) cs = filter (\<lambda>e. snd e = c) props)"
  proof
    assume "\<forall>opt \<in> set sels. \<not> is_array_index opt"
    then have "\<forall>e \<in> set props. \<not> is_array_index (fst e)"
      by (auto simp: props_def)
    then show "\<forall>c. filter (\<lambda>e. snd e = c) cs = filter (\<lambda>e. snd e = c) props"
      using ties by (simp add: object_entries_plain)
  qed
  have shown: "\<exists>ps. length ps = length cs \<and> list_all2 P cs ps
      \<and> multi_section q rs key
          = Inr (''*'' @ label q @ ''*'' @ [nl] @ join [nl] (map G (zip cs ps)))"
    if sorted: "multi_sorted rs key = map (\<lambda>(opt, c). (opt, Count c)) cs"
      and once: "\<forall>r \<in> set rs. distinct (selections_of (r key))"
      and small: "length rs < 2 ^ 32"
  proof -
    have "\<exists>p. P e p \<and> option_row (length rs) (case e of (opt, c) \<Rightarrow> (opt, Count c)) = Inr (G (e, p))"
      if mem: "e \<in> set cs" for e
    proof -
      obtain opt where e: "e = (opt, count_list sels opt)" and opt: "opt \<in> set sels"
        using mem entries by auto
      have "count_list sels opt \<noteq> 0"
        using opt by (simp only: count_list_0_iff) simp
      then have pos: "0 < count_list sels opt" by simp
      have le: "count_list sels opt \<le> length rs"
        unfolding sels_def allSelections_def using once by (rule count_concat_le)
      from option_row_shown [OF pos le small, of opt]
      show ?thesis
        unfolding e P_def G_def prod.case by blast
    qed
    then have "\<forall>e \<in> set cs.
         \<exists>p. P e p \<and> option_row (length rs) (case e of (opt, c) \<Rightarrow> (opt, Count c)) = Inr (G (e, p))"
      by blast
    from collect_rows [OF this]
    obtain ps where ps: "length ps = length cs" "list_all2 P cs ps"
        "collect (map (\<lambda>e. option_row (length rs) (case e of (opt, c) \<Rightarrow> (opt, Count c))) cs)
           = Inr (map G (zip cs ps))"
      by blast
    have "map (option_row (length rs)) (multi_sorted rs key)
        = map (\<lambda>e. option_row (length rs) (case e of (opt, c) \<Rightarrow> (opt, Count c))) cs"
      by (simp add: sorted comp_def)
    then have "multi_section q rs key
        = Inr (''*'' @ label q @ ''*'' @ [nl] @ join [nl] (map G (zip cs ps)))"
      unfolding multi_section_def Let_def by (simp only: ps(3)) simp
    then show ?thesis using ps(1,2) by blast
  qed
  have main: "\<exists>cs'. multi_sorted rs key = map (\<lambda>(opt, c). (opt, Count c)) cs'
         \<and> cs' = sort_key (\<lambda>(opt, c). - int c) (object_entries props)
         \<and> set cs' = (\<lambda>k. (k, count_list sels k)) ` set sels
         \<and> distinct (map fst cs')
         \<and> sorted_wrt (\<lambda>a b. snd b \<le> snd a) cs'
         \<and> (\<forall>c. filter (\<lambda>e. snd e = c) cs' = filter (\<lambda>e. snd e = c) (object_entries props))
         \<and> ((\<forall>opt \<in> set sels. \<not> is_array_index opt) \<longrightarrow>
             (\<forall>c. filter (\<lambda>e. snd e = c) cs' = filter (\<lambda>e. snd e = c) props))
         \<and> ((\<forall>r \<in> set rs. distinct (selections_of (r key))) \<and> length rs < 2 ^ 32 \<longrightarrow>
             (\<exists>ps. length ps = length cs' \<and> list_all2 P cs' ps
                \<and> multi_section q rs key
                    = Inr (''*'' @ label q @ ''*'' @ [nl] @ join [nl] (map G (zip cs' ps)))))"
    if proto: "\<forall>opt \<in> set sels. inherited opt = None"
  proof -
    have sorted: "multi_sorted rs key = map (\<lambda>(opt, c). (opt, Count c)) cs"
      unfolding cs_def props_def sels_def
      using proto [unfolded sels_def] by (rule multi_sorted_counts)
    have "cs = sort_key (\<lambda>(opt, c). - int c) (object_entries props)"
      by (rule cs_def)
    moreover have "(\<forall>r \<in> set rs. distinct (selections_of (r key))) \<and> length rs < 2 ^ 32 \<longrightarrow>
             (\<exists>ps. length ps = length cs \<and> list_all2 P cs ps
                \<and> multi_section q rs key
                    = Inr (''*'' @ label q @ ''*'' @ [nl] @ join [nl] (map G (zip cs ps))))"
      using shown [OF sorted] by blast
    ultimately show ?thesis
      using sorted entries dist desc ties first by (intro exI [of _ cs] conjI) assumption+
  qed
  have inh: "\<forall>opt t. inherited opt = Some t \<and> opt \<noteq> ''__proto__'' \<longrightarrow>
          multi_section q [[key \<mapsto> AArr [opt]]] key
          = Inr (''*'' @ label q @ ''*'' @ [nl] @ opt @ '':  NaN% ('' @ t @ ''1)'')"
    using inherited_row by blast
  have "(\<forall>opt \<in> set sels. inherited opt = None) \<longrightarrow>
      (\<exists>cs'. multi_sorted rs key = map (\<lambda>(opt, c). (opt, Count c)) cs'
         \<and> cs' = sort_key (\<lambda>(opt, c). - int c) (object_entries props)
         \<and> set cs' = (\<lambda>k. (k, count_list sels k)) ` set sels
         \<and> distinct (map fst cs')
         \<and> sorted_wrt (\<lambda>a b. snd b \<le> snd a) cs'
         \<and> (\<forall>c. filter (\<lambda>e. snd e = c) cs' = filter (\<lambda>e. snd e = c) (object_entries props))
         \<and> ((\<forall>opt \<in> set sels. \<not> is_array_index opt) \<longrightarrow>
             (\<forall>c. filter (\<lambda>e. snd e = c) cs' = filter (\<lambda>e. snd e = c) props))
         \<and> ((\<forall>r \<in> set rs. distinct (selections_of (r key))) \<and> length rs < 2 ^ 32 \<longrightarrow>
             (\<exists>ps. length ps = length cs' \<and> list_all2 P cs' ps
                \<and> multi_section q rs key
                    = Inr (''*'' @ label q @ ''*'' @ [nl] @ join [nl] (map G (zip cs' ps))))))"
    using main by blast
  note facts = this inh proto_dropped [of key] choice_responses_shown
  show ?thesis
    using facts [unfolded props_def sels_def P_def G_def]
    by (intro conjI) assumption+
qed

theorem multi_select_aggregation_witness:
  "allSelections choice_responses ''q_0'' = [''A'', ''B'', ''A'', ''B'', ''A'']
   \<and> length choice_responses = 3
   \<and> multi_sorted choice_responses ''q_0'' = [(''A'', Count 3), (''B'', Count 2)]
   \<and> multi_section events_question choice_responses ''q_0''
       = Inr (''*Events*'' @ [nl]
              @ ''A: '' @ concat (replicate 10 full_block) @ '' 100% (3)'' @ [nl]
              @ ''B: '' @ concat (replicate 7 full_block) @ concat (replicate 3 light_shade)
              @ '' 67% (2)'')"
proof -
  have sels: "allSelections choice_responses ''q_0'' = [''A'', ''B'', ''A'', ''B'', ''A'']"
    by (simp add: allSelections_def choice_responses_def)
  have once: "\<forall>r \<in> set choice_responses. distinct (selections_of (r ''q_0''))"
    by (simp add: choice_responses_def)
  have names: "\<forall>opt \<in> set (allSelections choice_responses ''q_0''). inherited opt = None"
    by (simp add: sels inherited_def)
  have len: "length choice_responses = 3"
    by (simp add: choice_responses_def)
  then have small: "length choice_responses < 2 ^ 32" by simp
  have sorted: "multi_sorted choice_responses ''q_0'' = [(''A'', Count 3), (''B'', Count 2)]"
    by (simp add: multi_sorted_def sels tally_def inherited_def object_entries_def
          sort_by_count_def compare_entries_def is_array_index_def is_digit_def)
  from multi_select_aggregation [of choice_responses "''q_0''" events_question,
      THEN conjunct1, THEN mp, OF names]
  obtain cs where cs: "multi_sorted choice_responses ''q_0'' = map (\<lambda>(opt, c). (opt, Count c)) cs"
    and rows: "(\<forall>r \<in> set choice_responses. distinct (selections_of (r ''q_0'')))
           \<and> length choice_responses < 2 ^ 32 \<longrightarrow>
       (\<exists>ps. length ps = length cs
          \<and> list_all2 (\<lambda>(opt, c) p. 0 \<le> p \<and> p \<le> 100
                \<and> \<bar>(of_int p :: rat) - 100 * of_nat c / of_nat (length choice_responses)\<bar> \<le> 1 / 2)
              cs ps
          \<and> multi_section events_question choice_responses ''q_0''
              = Inr (''*'' @ label events_question @ ''*'' @ [nl]
                     @ join [nl]
                         (map (\<lambda>((opt, c), p).
                                 opt @ '': ''
                                 @ concat (replicate (nat ((p + 5) div 10)) full_block)
                                 @ concat (replicate (10 - nat ((p + 5) div 10)) light_shade)
                                 @ '' '' @ show_int p @ ''% ('' @ show_nat c @ '')'')
                            (zip cs ps))))"
    by blast
  have cs_eq: "cs = [(''A'', 3), (''B'', 2)]"
    using cs unfolding sorted by (auto simp: Cons_eq_map_conv)
  from rows once small obtain ps where
    all: "list_all2 (\<lambda>(opt, c) p. 0 \<le> p \<and> p \<le> 100
                \<and> \<bar>(of_int p :: rat) - 100 * of_nat c / of_nat 3\<bar> \<le> 1 / 2)
              [(''A'', 3), (''B'', 2)] ps"
    and shown: "multi_section events_question choice_responses ''q_0''
      = Inr (''*'' @ label events_question @ ''*'' @ [nl]
             @ join [nl]
                 (map (\<lambda>((opt, c), p).
                         opt @ '': '' @ concat (replicate (nat ((p + 5) div 10)) full_block)
                         @ concat (replicate (10 - nat ((p + 5) div 10)) light_shade)
                         @ '' '' @ show_int p @ ''% ('' @ show_nat c @ '')'')
                    (zip [(''A'', 3), (''B'', 2)] ps)))"
    unfolding cs_eq len by blast
  from all obtain p1 p2 where ps: "ps = [p1, p2]"
    by (auto simp: list_all2_Cons1)
  have p1: "\<bar>(of_int p1 :: rat) - 100\<bar> \<le> 1 / 2"
    and p2: "\<bar>(of_int p2 :: rat) - 200 / 3\<bar> \<le> 1 / 2"
    using all unfolding ps by auto
  note sect = shown [unfolded ps]
  have "(99 :: rat) < of_int p1" "(of_int p1 :: rat) < 101"
    using p1 by linarith+
  then have "(of_int 99 :: rat) < of_int p1" "(of_int p1 :: rat) < of_int 101"
    by simp_all
  then have "99 < p1" "p1 < 101" by (simp_all only: of_int_less_iff)
  then have e1: "p1 = 100" by simp
  have "(66 :: rat) < of_int p2" "(of_int p2 :: rat) < 68"
    using p2 by linarith+
  then have "(of_int 66 :: rat) < of_int p2" "(of_int p2 :: rat) < of_int 68"
    by simp_all
  then have "66 < p2" "p2 < 68" by (simp_all only: of_int_less_iff)
  then have e2: "p2 = 67" by simp
  have "multi_section events_question choice_responses ''q_0''
       = Inr (''*Events*'' @ [nl]
              @ ''A: '' @ concat (replicate 10 full_block) @ '' 100% (3)'' @ [nl]
              @ ''B: '' @ concat (replicate 7 full_block) @ concat (replicate 3 light_shade)
              @ '' 67% (2)'')"
    unfolding sect e1 e2
    by (simp add: events_question_def show_int_def show_nat.simps)
  then show ?thesis
    using sels len sorted by simp
qed

section \<open>Properties of the command handler\<close>

text \<open>
  C9, as the claim states it, fails: the reply to \<open>/pulse share\<close> when the backend is
  unreachable is the reply when rendering throws a RangeError (a stored rating of 9), the
  one generic warning; the storage fault has no outcome of its own.
\<close>

theorem storage_fault_generic_counterexample:
  "handler_catch (handleShare (sample_backend\<lparr>reachable := False\<rparr>) ''C024'' (Some ''a1b2c3d4''))
     = (SlackResponse something_went_wrong, [])
   \<and> handler_catch (handleShare broken_backend ''C024'' (Some ''a1b2c3d4''))
     = (SlackResponse something_went_wrong, [])
   \<and> getResponses broken_backend ''a1b2c3d4'' = Inr [[''q_0'' \<mapsto> AStr ''9'']]"
  by (simp add: handler_catch_def handleShare_def getSurvey_def getResponses_def
        broken_backend_def sample_backend_def buildResultsBlocks_out_of_range)

text \<open>
  C9, amended. When the backend is unreachable, the read operations \<open>getSurvey\<close>,
  \<open>getResponses\<close> and \<open>hasUserResponded\<close> fail with the storage fault (they never return
  an empty result in its place), and the handlers of \<open>results\<close>, \<open>share\<close> and \<open>export\<close>
  answer it with the generic warning that every error gets.
\<close>

theorem storage_fault_propagates:
  assumes "\<not> reachable b"
  shows "getSurvey b surveyId = Inl StorageFault
       \<and> getResponses b surveyId = Inl StorageFault
       \<and> hasUserResponded b surveyId userId = Inl StorageFault
       \<and> handler_catch (handleResults b channelId userId (Some surveyId))
           = (SlackResponse something_went_wrong, [])
       \<and> handler_catch (handleShare b channelId (Some surveyId))
           = (SlackResponse something_went_wrong, [])
       \<and> handler_catch (handleExport b channelId userId (Some surveyId))
           = (SlackResponse something_went_wrong, [])"
  using assms
  by (simp add: getSurvey_def getResponses_def hasUserResponded_def handler_catch_def
        handleResults_def handleShare_def handleExport_def)

theorem storage_fault_propagates_witness:
  "\<not> reachable (sample_backend\<lparr>reachable := False\<rparr>)
   \<and> getResponses (sample_backend\<lparr>reachable := False\<rparr>) ''a1b2c3d4'' = Inl StorageFault
   \<and> handler_catch (handleShare (sample_backend\<lparr>reachable := False\<rparr>) ''C024'' (Some ''a1b2c3d4''))
       = (SlackResponse something_went_wrong, [])"
  using storage_fault_propagates [of "sample_backend\<lparr>reachable := False\<rparr>" "''a1b2c3d4''" "''U1''" "''C024''"]
  by simp


end
